theory Spec2Isabelle
  imports Complex_Main "HOL-Library.Sublist"
begin

section \<open>Index cards on Avery 5388 sheets: the auto-fit layout engine\<close>

text \<open>
  A shallow embedding of \<^verbatim>\<open>bear-index-cards-bulk-avery-scale-title.py\<close>.

  Conventions of the embedding:
  \<^item> Python numbers (ints and floats alike) are rationals with exact arithmetic; the
    rounding of binary floating point is not modelled.
  \<^item> A Python string is a \<open>string\<close>; a character stands for a code point below 256.
  \<^item> An exception is a value \<open>Inl e\<close> of the sum type \<open>error + 'a\<close>.
  \<^item> The collaborators that the script imports are parameters of the functions that call
    them: the font metrics \<open>pdfmetrics.stringWidth\<close> (argument \<open>sw\<close>), the word
    splitter \<open>TextWrapper._split\<close> of \<open>textwrap\<close> (argument \<open>sp\<close>) and the
    Markdown analyzer (argument \<open>an\<close>). The line-filling algorithm of
    \<open>textwrap.wrap\<close> is modelled in full, with the option values that the call
    \<open>wrap(text, width=n)\<close> leaves at their defaults.
\<close>

subsection \<open>Exceptions\<close>

datatype error =
    ValueError string
  | ZeroDivisionError string
  | UnboundLocalError string
  | OtherError string

text \<open>\<open>str(e)\<close> of an exception built from one message.\<close>

fun str_of_error :: "error \<Rightarrow> string" where
  "str_of_error (ValueError m) = m"
| "str_of_error (ZeroDivisionError m) = m"
| "str_of_error (UnboundLocalError m) = m"
| "str_of_error (OtherError m) = m"

subsection \<open>Python primitives\<close>

text \<open>\<open>int(x)\<close> on a number truncates towards zero.\<close>

definition py_int :: "rat \<Rightarrow> int" where
  "py_int x = (if 0 \<le> x then \<lfloor>x\<rfloor> else \<lceil>x\<rceil>)"

text \<open>\<open>xs[:k]\<close>: a negative bound counts from the end, and no bound is out of range.\<close>

definition py_slice_to :: "'a list \<Rightarrow> int \<Rightarrow> 'a list" where
  "py_slice_to xs k = (if 0 \<le> k then take (nat k) xs else take (length xs - nat (- k)) xs)"

text \<open>\<open>sep.join(xs)\<close>.\<close>

fun py_join :: "string \<Rightarrow> string list \<Rightarrow> string" where
  "py_join sep [] = []"
| "py_join sep [x] = x"
| "py_join sep (x # y # ys) = x @ sep @ py_join sep (y # ys)"

text \<open>\<open>repr\<close> of an integer, in decimal.\<close>

fun str_nat :: "nat \<Rightarrow> string" where
  "str_nat n = (if n < 10 then [char_of (48 + n)]
                else str_nat (n div 10) @ [char_of (48 + n mod 10)])"

declare str_nat.simps [simp del]

definition repr_int :: "int \<Rightarrow> string" where
  "repr_int i = (if i < 0 then CHR ''-'' # str_nat (nat (- i)) else str_nat (nat i))"

text \<open>
  \<open>str.isspace\<close> on one character: tab, line feed, vertical tab, form feed, carriage
  return, the four separators \<open>0x1c\<close> to \<open>0x1f\<close>, space, \<open>0x85\<close> and \<open>0xa0\<close>.
\<close>

definition py_isspace :: "char \<Rightarrow> bool" where
  "py_isspace c = ((of_char c :: nat) \<in> {9, 10, 11, 12, 13, 28, 29, 30, 31, 32, 133, 160})"

text \<open>\<open>s.strip() == ''\<close>: the string has no character that is not white space.\<close>

definition is_blank :: "string \<Rightarrow> bool" where
  "is_blank s = list_all py_isspace s"

subsection \<open>The standard library's \<open>textwrap.wrap\<close>\<close>

text \<open>
  \<open>str.expandtabs(8)\<close>: a tab advances to the next multiple of eight columns; the column
  starts again at zero after a line feed or a carriage return.
\<close>

fun expandtabs :: "nat \<Rightarrow> string \<Rightarrow> string" where
  "expandtabs col [] = []"
| "expandtabs col (c # cs) =
     (if c = char_of (9::nat) then
        replicate (8 - col mod 8) CHR '' '' @ expandtabs (col + (8 - col mod 8)) cs
      else if c = char_of (10::nat) \<or> c = char_of (13::nat) then c # expandtabs 0 cs
      else c # expandtabs (Suc col) cs)"

text \<open>
  \<open>_munge_whitespace\<close>: expand the tabs, then turn each character of
  \<open>'\t\n\x0b\x0c\r '\<close> into a space.
\<close>

definition munge_whitespace :: "string \<Rightarrow> string" where
  "munge_whitespace text =
     map (\<lambda>c. if (of_char c :: nat) \<in> {9, 10, 11, 12, 13, 32} then CHR '' '' else c)
       (expandtabs 0 text)"

text \<open>
  The inner loop of \<open>_wrap_chunks\<close>: move chunks to the current line while the line stays
  within the width. The chunks are kept in reading order, the next one first (the library
  reverses the list and pops from its end).
\<close>

fun fill_line :: "nat \<Rightarrow> string list \<Rightarrow> nat \<Rightarrow> string list \<Rightarrow> string list \<times> nat \<times> string list" where
  "fill_line width cur_line cur_len [] = (cur_line, cur_len, [])"
| "fill_line width cur_line cur_len (c # chunks) =
     (if cur_len + length c \<le> width
      then fill_line width (cur_line @ [c]) (cur_len + length c) chunks
      else (cur_line, cur_len, c # chunks))"

text \<open>
  \<open>chunk.rfind('-', 0, e)\<close>: the last index below \<open>e\<close> that holds a hyphen, or \<open>-1\<close>.
\<close>

definition rfind_hyphen :: "string \<Rightarrow> nat \<Rightarrow> int" where
  "rfind_hyphen chunk e =
     (case filter (\<lambda>i. chunk ! i = CHR ''-'') (rev [0 ..< min e (length chunk)]) of
        [] \<Rightarrow> - 1
      | i # _ \<Rightarrow> int i)"

text \<open>
  \<open>_handle_long_word\<close> with \<open>break_long_words\<close> and \<open>break_on_hyphens\<close> set: the next
  chunk fits on no line, so as much of it as the current line still takes is cut off and
  put on the line, after the last hyphen in that part if one follows a non-hyphen.
  The result is the new current line and the new chunk list.
\<close>

definition handle_long_word ::
  "nat \<Rightarrow> nat \<Rightarrow> string list \<Rightarrow> string list \<Rightarrow> string list \<times> string list" where
  "handle_long_word width cur_len cur_line chunks =
     (let space_left = (if width < 1 then 1 else width - cur_len);
          chunk = hd chunks;
          hyphen = rfind_hyphen chunk space_left;
          end = (if length chunk > space_left \<and> hyphen > 0
                    \<and> list_ex (\<lambda>c. c \<noteq> CHR ''-'') (take (nat hyphen) chunk)
                 then nat hyphen + 1 else space_left)
      in (cur_line @ [take end chunk], drop end chunk # tl chunks))"

text \<open>
  One pass of the outer loop of \<open>_wrap_chunks\<close>, for a non-empty chunk list: drop a
  blank chunk at the start of every line but the first, fill the line, break a chunk
  that is longer than the width, drop one blank chunk from the end of the line. The
  result is the line to append, if the pass made one, and the chunks that remain.
  \<open>started\<close> says that \<open>lines\<close> is not empty.
\<close>

definition wrap_pass :: "nat \<Rightarrow> bool \<Rightarrow> string list \<Rightarrow> string option \<times> string list" where
  "wrap_pass width started chunks =
     (let chunks1 = (if is_blank (hd chunks) \<and> started then tl chunks else chunks);
          (cur_line, cur_len, chunks2) = fill_line width [] 0 chunks1;
          (cur_line2, chunks3) =
             (if chunks2 \<noteq> [] \<and> length (hd chunks2) > width
              then handle_long_word width cur_len cur_line chunks2
              else (cur_line, chunks2));
          cur_line3 = (if cur_line2 \<noteq> [] \<and> is_blank (last cur_line2)
                       then butlast cur_line2 else cur_line2)
      in (if cur_line3 \<noteq> [] then Some (concat cur_line3) else None, chunks3))"

text \<open>What every pass makes smaller: the characters and the chunks still to place.\<close>

definition chunks_size :: "string list \<Rightarrow> nat" where
  "chunks_size chunks = length (concat chunks) + length chunks"

text \<open>
  The outer loop of \<open>_wrap_chunks\<close>: passes until no chunk is left; each line made is
  appended to \<open>lines\<close>.
\<close>

function wrap_lines :: "nat \<Rightarrow> string list \<Rightarrow> string list \<Rightarrow> string list" where
  "wrap_lines width lines chunks =
     (if chunks = [] then lines
      else case wrap_pass width (lines \<noteq> []) chunks of
             (None, rest) \<Rightarrow> wrap_lines width lines rest
           | (Some line, rest) \<Rightarrow> wrap_lines width (lines @ [line]) rest)"
  by pat_completeness auto

text \<open>
  \<open>_wrap_chunks\<close>: a width that is not positive is refused before any chunk is looked at.
\<close>

definition wrap_chunks :: "int \<Rightarrow> string list \<Rightarrow> error + string list" where
  "wrap_chunks width chunks =
     (if width \<le> 0
      then Inl (ValueError (''invalid width '' @ repr_int width @ '' (must be > 0)''))
      else Inr (wrap_lines (nat width) [] chunks))"

text \<open>
  \<open>wrap(text, width)\<close>: munge the white space, split into chunks with the library's
  splitter \<open>sp\<close>, discard the empty chunks, fill the lines.
\<close>

definition wrap :: "(string \<Rightarrow> string list) \<Rightarrow> string \<Rightarrow> int \<Rightarrow> error + string list" where
  "wrap sp text width =
     wrap_chunks width (filter (\<lambda>c. c \<noteq> []) (sp (munge_whitespace text)))"

text \<open>
  A splitter to run the model with: maximal runs of the white space characters
  \<open>'\t\n\x0b\x0c\r '\<close> and maximal runs of other characters, in order. These are the
  chunks that the library's splitter makes of a text without hyphens.
\<close>

definition ws_char :: "char \<Rightarrow> bool" where
  "ws_char c = ((of_char c :: nat) \<in> {9, 10, 11, 12, 13, 32})"

fun split_ws :: "string \<Rightarrow> string list" where
  "split_ws [] = []"
| "split_ws (c # cs) =
     (case split_ws cs of
        [] \<Rightarrow> [[c]]
      | g # gs \<Rightarrow> if ws_char c = ws_char (hd g) then (c # g) # gs else [c] # g # gs)"

subsection \<open>Settings\<close>

text \<open>
  \<open>inch\<close> and \<open>letter\<close> come from \<open>reportlab.lib.pagesizes\<close>: 72 points, and
  8.5 by 11 inches.
\<close>

definition inch :: rat where "inch = 72"
definition PAGE_WIDTH :: rat where "PAGE_WIDTH = 85 / 10 * inch"
definition PAGE_HEIGHT :: rat where "PAGE_HEIGHT = 11 * inch"
definition PAGE_LEFT_MARGIN :: rat where "PAGE_LEFT_MARGIN = 175 / 100 * inch"
definition PAGE_RIGHT_MARGIN :: rat where "PAGE_RIGHT_MARGIN = 175 / 100 * inch"
definition PAGE_TOP_MARGIN :: rat where "PAGE_TOP_MARGIN = 1 * inch"
definition PAGE_BOTTOM_MARGIN :: rat where "PAGE_BOTTOM_MARGIN = 1 * inch"

definition CARD_WIDTH :: rat where "CARD_WIDTH = 5 * inch"
definition CARD_HEIGHT :: rat where "CARD_HEIGHT = 3 * inch"
definition CARD_MARGIN :: rat where "CARD_MARGIN = 12"
definition CONTENT_WIDTH :: rat where "CONTENT_WIDTH = CARD_WIDTH - 2 * CARD_MARGIN"
definition CONTENT_HEIGHT :: rat where "CONTENT_HEIGHT = CARD_HEIGHT - 2 * CARD_MARGIN"

definition TITLE_FONT_NAME :: string where "TITLE_FONT_NAME = ''Helvetica-Bold''"
definition BODY_FONT_NAME :: string where "BODY_FONT_NAME = ''Helvetica''"
definition MIN_FONT_SIZE :: rat where "MIN_FONT_SIZE = 6"
definition MAX_TITLE_SIZE :: rat where "MAX_TITLE_SIZE = 12"
definition MAX_BODY_SIZE :: rat where "MAX_BODY_SIZE = 10"
definition LINE_SPACING :: rat where "LINE_SPACING = 12 / 10"

definition FOOTER_HEIGHT :: rat where "FOOTER_HEIGHT = 36"
definition PAGE_COL_WIDTH :: rat where "PAGE_COL_WIDTH = 48"
definition MAX_FOOTER_FONT_SIZE :: rat where "MAX_FOOTER_FONT_SIZE = 8"
definition MIN_FOOTER_FONT_SIZE :: rat where "MIN_FOOTER_FONT_SIZE = 6"

subsection \<open>Font metrics\<close>

text \<open>
  \<open>pdfmetrics.stringWidth(text, fontName, fontSize)\<close>: the width of a string in a font
  at a size.
\<close>

type_synonym metric = "string \<Rightarrow> string \<Rightarrow> rat \<Rightarrow> rat"

text \<open>
  A metric to run the model with: every glyph is as wide as the \<open>n\<close> of Helvetica, 556
  thousandths of the size. For the string \<open>"n"\<close> in Helvetica it is the width that the
  Adobe font metrics give.
\<close>

definition n_metric :: metric where
  "n_metric text font_name font_size = 556 * of_nat (length text) * font_size / 1000"

subsection \<open>Text Fitter: \<open>auto_scale_text\<close>\<close>

text \<open>
  The first three statements of the loop body, at one font size: measure an \<open>n\<close>, derive
  the characters per line, wrap the first 2000 characters. Dividing by a zero width
  raises, and so does \<open>wrap\<close> on a width that is not positive. The result is the
  measured width and the wrapped lines.
\<close>

definition measure_and_wrap ::
  "metric \<Rightarrow> (string \<Rightarrow> string list) \<Rightarrow> string \<Rightarrow> rat \<Rightarrow> rat \<Rightarrow> error + rat \<times> string list" where
  "measure_and_wrap sw sp text max_width font_size =
     (let avg_char_width = sw ''n'' BODY_FONT_NAME font_size in
      if avg_char_width = 0 then Inl (ZeroDivisionError ''float division by zero'')
      else
        let chars_per_line = py_int (max_width / avg_char_width) in
        case wrap sp (take 2000 text) chars_per_line of
          Inl e \<Rightarrow> Inl e
        | Inr wrapped \<Rightarrow> Inr (avg_char_width, wrapped))"

text \<open>The next two statements: the height that the wrapped lines need at a font size.\<close>

definition needed_height :: "rat \<Rightarrow> string list \<Rightarrow> rat" where
  "needed_height font_size wrapped =
     (let line_height = font_size * LINE_SPACING in of_nat (length wrapped) * line_height)"

text \<open>
  How the \<open>while\<close> loop ends: by its \<open>return\<close>, with the size and the wrapped lines, or
  by its condition, and then the variable \<open>avg_char_width\<close> holds the last width
  measured, if any.
\<close>

datatype scale_exit = Returned rat "string list" | Exhausted "rat option"

function scale_loop ::
  "metric \<Rightarrow> (string \<Rightarrow> string list) \<Rightarrow> string \<Rightarrow> rat \<Rightarrow> rat \<Rightarrow> rat \<Rightarrow> rat option
     \<Rightarrow> error + scale_exit" where
  "scale_loop sw sp text max_width max_height font_size avg =
     (if font_size \<ge> MIN_FONT_SIZE then
        case measure_and_wrap sw sp text max_width font_size of
          Inl e \<Rightarrow> Inl e
        | Inr (avg_char_width, wrapped) \<Rightarrow>
            if needed_height font_size wrapped \<le> max_height
            then Inr (Returned font_size wrapped)
            else scale_loop sw sp text max_width max_height (font_size - 1 / 2)
                   (Some avg_char_width)
      else Inr (Exhausted avg))"
  by pat_completeness auto

text \<open>
  The function returns the pair of the size and the lines joined by \<open><br/>\<close>.
  \<open>auto_scale_lines\<close> is the same computation before the join. After the loop, the
  fallback wraps the whole text at the width measured last and keeps the lines up to
  \<open>int(max_height / (MIN_FONT_SIZE * LINE_SPACING))\<close>.
\<close>

definition auto_scale_lines ::
  "metric \<Rightarrow> (string \<Rightarrow> string list) \<Rightarrow> string \<Rightarrow> rat \<Rightarrow> rat \<Rightarrow> error + rat \<times> string list" where
  "auto_scale_lines sw sp text max_width max_height =
     (case scale_loop sw sp text max_width max_height MAX_BODY_SIZE None of
        Inl e \<Rightarrow> Inl e
      | Inr (Returned font_size wrapped) \<Rightarrow> Inr (font_size, wrapped)
      | Inr (Exhausted None) \<Rightarrow>
          Inl (UnboundLocalError ''cannot access local variable 'avg_char_width' '')
      | Inr (Exhausted (Some avg_char_width)) \<Rightarrow>
          if avg_char_width = 0 then Inl (ZeroDivisionError ''float division by zero'')
          else
            case wrap sp text (py_int (max_width / avg_char_width)) of
              Inl e \<Rightarrow> Inl e
            | Inr wrapped \<Rightarrow>
                Inr (MIN_FONT_SIZE,
                     py_slice_to wrapped (py_int (max_height / (MIN_FONT_SIZE * LINE_SPACING)))))"

definition auto_scale_text ::
  "metric \<Rightarrow> (string \<Rightarrow> string list) \<Rightarrow> string \<Rightarrow> rat \<Rightarrow> rat \<Rightarrow> error + rat \<times> string" where
  "auto_scale_text sw sp text max_width max_height =
     (case auto_scale_lines sw sp text max_width max_height of
        Inl e \<Rightarrow> Inl e
      | Inr (font_size, wrapped) \<Rightarrow> Inr (font_size, py_join ''<br/>'' wrapped))"

subsection \<open>Title Fitter: \<open>fit_title_font\<close>\<close>

text \<open>The \<open>while\<close> loop of \<open>fit_title_font\<close>, from a current \<open>font_size\<close> on.\<close>

function fit_title_loop :: "metric \<Rightarrow> string \<Rightarrow> rat \<Rightarrow> rat \<Rightarrow> rat" where
  "fit_title_loop sw title max_width font_size =
     (if font_size \<ge> MIN_FONT_SIZE then
        let text_width = sw title TITLE_FONT_NAME font_size in
        if text_width \<le> max_width then font_size
        else fit_title_loop sw title max_width (font_size - 1)
      else MIN_FONT_SIZE)"
  by pat_completeness auto

definition fit_title_font :: "metric \<Rightarrow> string \<Rightarrow> rat \<Rightarrow> rat" where
  "fit_title_font sw title max_width = fit_title_loop sw title max_width MAX_TITLE_SIZE"

subsection \<open>Footer Fitter: \<open>calculate_footer_font\<close>\<close>

text \<open>The \<open>while\<close> loop of \<open>calculate_footer_font\<close>, from a current \<open>font_size\<close> on.\<close>

function footer_loop :: "metric \<Rightarrow> string \<Rightarrow> string \<Rightarrow> rat \<Rightarrow> rat" where
  "footer_loop sw source_text page_text font_size =
     (if font_size \<ge> MIN_FOOTER_FONT_SIZE then
        let source_width = sw source_text BODY_FONT_NAME font_size;
            page_width = sw page_text BODY_FONT_NAME font_size;
            available_source_width = CONTENT_WIDTH - PAGE_COL_WIDTH - 6
        in if source_width \<le> available_source_width \<and> page_width \<le> PAGE_COL_WIDTH
           then font_size
           else footer_loop sw source_text page_text (font_size - 1 / 2)
      else MIN_FOOTER_FONT_SIZE)"
  by pat_completeness auto

definition calculate_footer_font :: "metric \<Rightarrow> string \<Rightarrow> string \<Rightarrow> rat" where
  "calculate_footer_font sw source_text page_text =
     footer_loop sw source_text page_text MAX_FOOTER_FONT_SIZE"

subsection \<open>Card Composer: \<open>create_card_content\<close>\<close>

text \<open>
  The composed card: what \<open>create_card_content\<close> hands to the constructors of the
  layout library. The outer table has one column of width \<open>CARD_WIDTH\<close> and four rows:
  the title table, the spacer, the paragraph table, the footer table.
\<close>

record card =
  title_text :: string
  title_font_size :: rat
  title_row_height :: rat
  quote_text :: string
  analysis_text :: string
  body_font_size :: rat
  para_row_height :: rat
  footer_source_text :: string
  footer_page_text :: string
  footer_font_size :: rat
  col_widths :: rat
  row_heights :: "rat list"

definition create_card_content ::
  "metric \<Rightarrow> (string \<Rightarrow> string list) \<Rightarrow> string \<Rightarrow> string \<Rightarrow> string \<Rightarrow> string \<Rightarrow> string
     \<Rightarrow> error + card" where
  "create_card_content sw sp card_title quote analysis source page_number =
     (let title_font_size = fit_title_font sw card_title CONTENT_WIDTH;
          title_height = title_font_size * LINE_SPACING + 6;
          para_available_height = CONTENT_HEIGHT - title_height - 12 - FOOTER_HEIGHT
      in case auto_scale_text sw sp quote CONTENT_WIDTH (para_available_height / 2) of
           Inl e \<Rightarrow> Inl e
         | Inr (quote_font, quote_content) \<Rightarrow>
       (case auto_scale_text sw sp analysis CONTENT_WIDTH (para_available_height / 2) of
           Inl e \<Rightarrow> Inl e
         | Inr (analysis_font, analysis_content) \<Rightarrow>
             let body_font_size = min quote_font analysis_font;
                 source_text = ''Source: '' @ source;
                 page_text = ''Page: '' @ page_number;
                 footer_font_size = calculate_footer_font sw source_text page_text
             in Inr \<lparr> title_text = ''<b>'' @ card_title @ ''</b>'',
                      title_font_size = title_font_size,
                      title_row_height = title_height - 2,
                      quote_text = ''<b>Quote:</b> '' @ quote_content,
                      analysis_text = ''<b>Analysis:</b> '' @ analysis_content,
                      body_font_size = body_font_size,
                      para_row_height = para_available_height,
                      footer_source_text = ''<b>Source:</b> '' @ source,
                      footer_page_text = ''<b>Page:</b> '' @ page_number,
                      footer_font_size = footer_font_size,
                      col_widths = CARD_WIDTH,
                      row_heights = [title_height, 12, para_available_height, FOOTER_HEIGHT] \<rparr>))"

subsection \<open>Record Source: \<open>parse_markdown\<close>\<close>

text \<open>
  What the Markdown analyzer finds in a file: for each header its \<open>text\<close> entry, if it
  has one; the paragraphs; the block quotes. The analyzer \<open>an\<close> maps a file name to
  this, or raises.
\<close>

record analysis =
  headers :: "string option list"
  paragraphs :: "string list"
  blockquotes :: "string list"

definition startswith :: "string \<Rightarrow> string \<Rightarrow> bool" where
  "startswith s p = (take (length p) s = p)"

definition endswith :: "string \<Rightarrow> string \<Rightarrow> bool" where
  "endswith s p = (length p \<le> length s \<and> drop (length s - length p) s = p)"

definition py_strip :: "string \<Rightarrow> string" where
  "py_strip s = dropWhile py_isspace (rev (dropWhile py_isspace (rev s)))"

definition is_digit :: "char \<Rightarrow> bool" where
  "is_digit c = (48 \<le> (of_char c :: nat) \<and> (of_char c :: nat) \<le> 57)"

text \<open>
  \<open>re.match(r'Page\s*(\d+)\s*-\s*(.*)', header_text)\<close>: the two groups, or no match.
  The dot does not match a line feed.
\<close>

definition match_page_header :: "string \<Rightarrow> (string \<times> string) option" where
  "match_page_header header_text =
     (if \<not> startswith header_text ''Page'' then None
      else
        let r1 = dropWhile py_isspace (drop 4 header_text);
            digits = takeWhile is_digit r1;
            r2 = dropWhile py_isspace (dropWhile is_digit r1)
        in if digits = [] then None
           else case r2 of
                  [] \<Rightarrow> None
                | c # r3 \<Rightarrow>
                    if c \<noteq> CHR ''-'' then None
                    else Some (digits, takeWhile (\<lambda>c. c \<noteq> char_of (10::nat)) (dropWhile py_isspace r3)))"

text \<open>
  \<open>re.search(r'\[\[(.*?)\]\]', s)\<close>: the group of the leftmost match. \<open>lazy_group\<close>
  reads the shortest stretch without a line feed that two closing brackets follow.
\<close>

fun lazy_group :: "string \<Rightarrow> string option" where
  "lazy_group [] = None"
| "lazy_group (c # cs) =
     (if startswith (c # cs) '']]'' then Some []
      else if c = char_of (10::nat) then None
      else map_option ((#) c) (lazy_group cs))"

fun search_source :: "string \<Rightarrow> string option" where
  "search_source [] = None"
| "search_source (c # cs) =
     (if startswith (c # cs) ''[['' then
        (case lazy_group (drop 2 (c # cs)) of
           Some g \<Rightarrow> Some g
         | None \<Rightarrow> search_source cs)
      else search_source cs)"

text \<open>\<open>s.replace("**Analysis:**", "")\<close>: every occurrence, left to right, is removed.\<close>

function remove_label :: "string \<Rightarrow> string" where
  "remove_label [] = []"
| "remove_label (c # cs) =
     (if startswith (c # cs) ''**Analysis:**'' then remove_label (drop 13 (c # cs))
      else c # remove_label cs)"
  by pat_completeness auto

text \<open>The \<open>for\<close> loop over the paragraphs: the first one that starts with the label.\<close>

fun find_analysis :: "string list \<Rightarrow> string" where
  "find_analysis [] = []"
| "find_analysis (para # paras) =
     (if startswith (py_strip para) ''**Analysis:**'' then py_strip (remove_label para)
      else find_analysis paras)"

definition parse_markdown ::
  "(string \<Rightarrow> error + analysis) \<Rightarrow> string
     \<Rightarrow> error + string \<times> string \<times> string \<times> string \<times> string" where
  "parse_markdown an filename =
     (case an filename of
        Inl e \<Rightarrow> Inl e
      | Inr analyzer \<Rightarrow>
          if headers analyzer = [] then Inl (ValueError (''No headers found in '' @ filename))
          else
            let header_text = (case hd (headers analyzer) of None \<Rightarrow> [] | Some t \<Rightarrow> t) in
            case match_page_header header_text of
              None \<Rightarrow> Inl (ValueError (''Header format error in '' @ filename))
            | Some (page_number, card_title) \<Rightarrow>
                let source =
                      (if paragraphs analyzer \<noteq> [] then
                         (case search_source (hd (paragraphs analyzer)) of
                            Some g \<Rightarrow> g
                          | None \<Rightarrow> ''Unknown'')
                       else ''Unknown'');
                    quote = (if blockquotes analyzer \<noteq> [] then hd (blockquotes analyzer) else []);
                    analysis = find_analysis (paragraphs analyzer)
                in Inr (card_title, quote, analysis, source, page_number))"

subsection \<open>Sheet Layout: \<open>make_avery5388_pdf\<close>\<close>

text \<open>An element of the list that goes to the document builder.\<close>

datatype element = Card card | PageBreak

text \<open>\<open>os.path.join(a, b)\<close> on a POSIX system.\<close>

definition path_join :: "string \<Rightarrow> string \<Rightarrow> string" where
  "path_join a b =
     (if startswith b ''/'' then b
      else if a = [] \<or> endswith a ''/'' then a @ b
      else a @ ''/'' @ b)"

text \<open>
  \<open>sorted\<close> on strings: the order of strings compares code points and puts a proper
  prefix first.
\<close>

fun str_le :: "string \<Rightarrow> string \<Rightarrow> bool" where
  "str_le [] ys = True"
| "str_le (x # xs) [] = False"
| "str_le (x # xs) (y # ys) =
     ((of_char x :: nat) < of_char y \<or> (x = y \<and> str_le xs ys))"

fun insert_sorted :: "string \<Rightarrow> string list \<Rightarrow> string list" where
  "insert_sorted x [] = [x]"
| "insert_sorted x (y # ys) = (if str_le x y then x # y # ys else y # insert_sorted x ys)"

definition sorted_strings :: "string list \<Rightarrow> string list" where
  "sorted_strings xs = foldr insert_sorted xs []"

text \<open>
  The two calls in the \<open>try\<close> block that can raise: parse the file at the joined
  path, compose the card from the five fields.
\<close>

definition compose_file ::
  "(string \<Rightarrow> error + analysis) \<Rightarrow> metric \<Rightarrow> (string \<Rightarrow> string list) \<Rightarrow> string \<Rightarrow> string
     \<Rightarrow> error + card" where
  "compose_file an sw sp md_dir md_file =
     (let full_path = path_join md_dir md_file in
      case parse_markdown an full_path of
        Inl e \<Rightarrow> Inl e
      | Inr (card_title, quote, analysis, source, page_number) \<Rightarrow>
          create_card_content sw sp card_title quote analysis source page_number)"

text \<open>
  The \<open>for\<close> loop over \<open>enumerate(md_files)\<close>, from index \<open>i\<close> on. The state is the
  list \<open>elements\<close> and the lines printed so far. When the \<open>try\<close> block raises, the
  handler prints a line and \<open>elements\<close> stays as it is; otherwise the card is appended,
  and a page break after it when \<open>i + 1\<close> is a multiple of three.
\<close>

fun process_files ::
  "(string \<Rightarrow> error + analysis) \<Rightarrow> metric \<Rightarrow> (string \<Rightarrow> string list) \<Rightarrow> string \<Rightarrow> nat
     \<Rightarrow> string list \<Rightarrow> element list \<times> string list \<Rightarrow> element list \<times> string list" where
  "process_files an sw sp md_dir i [] (elements, printed) = (elements, printed)"
| "process_files an sw sp md_dir i (md_file # md_files) (elements, printed) =
     (case compose_file an sw sp md_dir md_file of
        Inr c \<Rightarrow>
          process_files an sw sp md_dir (Suc i) md_files
            (if (i + 1) mod 3 = 0 then elements @ [Card c, PageBreak] else elements @ [Card c],
             printed)
      | Inl e \<Rightarrow>
          process_files an sw sp md_dir (Suc i) md_files
            (elements, printed @ [''Skipping '' @ md_file @ '': '' @ str_of_error e]))"

text \<open>
  \<open>make_avery5388_pdf\<close>, up to the call of the document builder: the result is the list
  of elements that \<open>doc.build\<close> receives and the lines printed. \<open>listdir\<close> stands for
  \<open>os.listdir\<close>; an exception that it raises is not caught.
\<close>

definition make_avery5388_pdf ::
  "(string \<Rightarrow> error + string list) \<Rightarrow> (string \<Rightarrow> error + analysis) \<Rightarrow> metric
     \<Rightarrow> (string \<Rightarrow> string list) \<Rightarrow> string \<Rightarrow> error + element list \<times> string list" where
  "make_avery5388_pdf listdir an sw sp md_dir =
     (case listdir md_dir of
        Inl e \<Rightarrow> Inl e
      | Inr names \<Rightarrow>
          let md_files = sorted_strings (filter (\<lambda>f. endswith f ''.md'') names);
              (elements, printed) = process_files an sw sp md_dir 0 md_files ([], [])
          in Inr (if elements \<noteq> [] \<and> last elements = PageBreak then butlast elements else elements,
                  printed))"

subsection \<open>Notions used in the statements\<close>

text \<open>The sizes that the loop of \<open>auto_scale_text\<close> tries, in its order.\<close>

definition body_sizes :: "rat list" where
  "body_sizes = [10, 19 / 2, 9, 17 / 2, 8, 15 / 2, 7, 13 / 2, 6]"

text \<open>
  The same search, written over a list of sizes. \<open>scale_loop_unroll\<close> below shows that
  the loop, started at \<open>MAX_BODY_SIZE\<close>, is this search over \<open>body_sizes\<close>.
\<close>

primrec scale_search ::
  "metric \<Rightarrow> (string \<Rightarrow> string list) \<Rightarrow> string \<Rightarrow> rat \<Rightarrow> rat \<Rightarrow> rat list \<Rightarrow> rat option
     \<Rightarrow> error + scale_exit" where
  "scale_search sw sp text max_width max_height [] avg = Inr (Exhausted avg)"
| "scale_search sw sp text max_width max_height (font_size # sizes) avg =
     (case measure_and_wrap sw sp text max_width font_size of
        Inl e \<Rightarrow> Inl e
      | Inr (avg_char_width, wrapped) \<Rightarrow>
          if needed_height font_size wrapped \<le> max_height
          then Inr (Returned font_size wrapped)
          else scale_search sw sp text max_width max_height sizes (Some avg_char_width))"

text \<open>The sizes that \<open>fit_title_font\<close> and \<open>calculate_footer_font\<close> try.\<close>

definition title_sizes :: "rat list" where
  "title_sizes = [12, 11, 10, 9, 8, 7, 6]"

definition footer_sizes :: "rat list" where
  "footer_sizes = [8, 15 / 2, 7, 13 / 2, 6]"

text \<open>The condition of the \<open>if\<close> in \<open>calculate_footer_font\<close>: both columns fit.\<close>

definition footer_fits :: "metric \<Rightarrow> string \<Rightarrow> string \<Rightarrow> rat \<Rightarrow> bool" where
  "footer_fits sw source_text page_text font_size =
     (sw source_text BODY_FONT_NAME font_size \<le> CONTENT_WIDTH - PAGE_COL_WIDTH - 6
      \<and> sw page_text BODY_FONT_NAME font_size \<le> PAGE_COL_WIDTH)"


text \<open>
  For the comparison of two widths: no two blank chunks in a row; the chunks that the
  inner loop of \<open>_wrap_chunks\<close> leaves; a chunk list without its blank first chunk; the
  number of lines that the outer loop appends.
\<close>

fun no_blank_pair :: "string list \<Rightarrow> bool" where
  "no_blank_pair (x # y # zs) = (\<not> (is_blank x \<and> is_blank y) \<and> no_blank_pair (y # zs))"
| "no_blank_pair zs = True"

fun fill_rest :: "nat \<Rightarrow> nat \<Rightarrow> string list \<Rightarrow> string list" where
  "fill_rest width cur_len [] = []"
| "fill_rest width cur_len (c # chunks) =
     (if cur_len + length c \<le> width then fill_rest width (cur_len + length c) chunks
      else c # chunks)"

definition strip_blank :: "string list \<Rightarrow> string list" where
  "strip_blank chunks = (if chunks \<noteq> [] \<and> is_blank (hd chunks) then tl chunks else chunks)"

function count_lines :: "nat \<Rightarrow> bool \<Rightarrow> string list \<Rightarrow> nat" where
  "count_lines width started chunks =
     (if chunks = [] then 0
      else case wrap_pass width started chunks of
             (None, rest) \<Rightarrow> count_lines width started rest
           | (Some line, rest) \<Rightarrow> Suc (count_lines width True rest))"
  by pat_completeness auto

text \<open>The cards among the elements, in order.\<close>

fun cards_of :: "element list \<Rightarrow> card list" where
  "cards_of [] = []"
| "cards_of (Card c # es) = c # cards_of es"
| "cards_of (PageBreak # es) = cards_of es"

text \<open>
  What one file adds to \<open>elements\<close> and to the printed lines, as the two branches of
  the loop body show it; \<open>all_units\<close> is the list \<open>elements\<close> after the loop, and
  \<open>drop_trailing_break\<close> the check made after it.
\<close>

definition layout_units ::
  "(string \<Rightarrow> error + analysis) \<Rightarrow> metric \<Rightarrow> (string \<Rightarrow> string list) \<Rightarrow> string \<Rightarrow> nat \<Rightarrow> string
     \<Rightarrow> element list" where
  "layout_units an sw sp md_dir i md_file =
     (case compose_file an sw sp md_dir md_file of
        Inl e \<Rightarrow> []
      | Inr c \<Rightarrow> if (i + 1) mod 3 = 0 then [Card c, PageBreak] else [Card c])"

definition diagnostics ::
  "(string \<Rightarrow> error + analysis) \<Rightarrow> metric \<Rightarrow> (string \<Rightarrow> string list) \<Rightarrow> string \<Rightarrow> string
     \<Rightarrow> string list" where
  "diagnostics an sw sp md_dir md_file =
     (case compose_file an sw sp md_dir md_file of
        Inl e \<Rightarrow> [''Skipping '' @ md_file @ '': '' @ str_of_error e]
      | Inr c \<Rightarrow> [])"

definition all_units ::
  "(string \<Rightarrow> error + analysis) \<Rightarrow> metric \<Rightarrow> (string \<Rightarrow> string list) \<Rightarrow> string \<Rightarrow> string list
     \<Rightarrow> element list" where
  "all_units an sw sp md_dir md_files =
     concat (map (\<lambda>(i, md_file). layout_units an sw sp md_dir i md_file) (enumerate 0 md_files))"

definition drop_trailing_break :: "element list \<Rightarrow> element list" where
  "drop_trailing_break elements =
     (if elements \<noteq> [] \<and> last elements = PageBreak then butlast elements else elements)"

text \<open>
  Inputs to run the model on: a file with the heading, a source, a quote and an analysis;
  an analyzer that finds no header in \<open>cards/b.md\<close>; a directory of four Markdown files
  and one other file; the card composed from the sample file.
\<close>

definition sample_analysis :: analysis where
  "sample_analysis =
     \<lparr> headers = [Some ''Page 12 - Test Card''],
       paragraphs = [''From [[Walden]].'', ''**Analysis:** Short analysis.''],
       blockquotes = [''Short quote.''] \<rparr>"

definition sample_analyzer :: "string \<Rightarrow> error + analysis" where
  "sample_analyzer filename =
     (if filename = ''cards/b.md'' then Inr \<lparr> headers = [], paragraphs = [], blockquotes = [] \<rparr>
      else Inr sample_analysis)"

definition sample_listdir :: "string \<Rightarrow> error + string list" where
  "sample_listdir md_dir = Inr [''c.md'', ''a.md'', ''notes.txt'', ''b.md'', ''d.md'']"

definition sample_card :: card where
  "sample_card =
     \<lparr> title_text = ''<b>Test Card</b>'', title_font_size = 12, title_row_height = 92 / 5,
       quote_text = ''<b>Quote:</b> Short quote.'',
       analysis_text = ''<b>Analysis:</b> Short analysis.'',
       body_font_size = 10, para_row_height = 618 / 5,
       footer_source_text = ''<b>Source:</b> Walden'',
       footer_page_text = ''<b>Page:</b> 12'', footer_font_size = 8,
       col_widths = 360, row_heights = [102 / 5, 12, 618 / 5, 36] \<rparr>"

section \<open>Termination\<close>

text \<open>
  Every loop of the model stops. A pass of \<open>_wrap_chunks\<close> places a chunk or cuts a
  piece off the chunk that is too long, so the characters and chunks still to place get
  fewer; the three searches step down from their largest size to the smallest.
\<close>

lemma fill_line_size:
  "fill_line width cur_line cur_len chunks = (l, n, rest) \<Longrightarrow>
     chunks_size rest \<le> chunks_size chunks"
proof (induction chunks arbitrary: cur_line cur_len)
  case Nil
  then show ?case by simp
next
  case (Cons c chunks)
  show ?case
  proof (cases "cur_len + length c \<le> width")
    case True
    with Cons.prems have "fill_line width (cur_line @ [c]) (cur_len + length c) chunks = (l, n, rest)"
      by simp
    then have "chunks_size rest \<le> chunks_size chunks" by (rule Cons.IH)
    then show ?thesis by (simp add: chunks_size_def)
  next
    case False
    with Cons.prems show ?thesis by auto
  qed
qed

lemma fill_line_progress:
  "fill_line width [] 0 chunks = (l, n, rest) \<Longrightarrow> chunks \<noteq> [] \<Longrightarrow>
     chunks_size rest < chunks_size chunks \<or> (rest = chunks \<and> n = 0 \<and> width < length (hd chunks))"
proof (cases chunks)
  case Nil
  assume "chunks \<noteq> []"
  with Nil show ?thesis by simp
next
  case (Cons c cs)
  assume fl: "fill_line width [] 0 chunks = (l, n, rest)"
  show ?thesis
  proof (cases "length c \<le> width")
    case True
    with fl Cons have "fill_line width [c] (length c) cs = (l, n, rest)" by simp
    then have "chunks_size rest \<le> chunks_size cs" by (rule fill_line_size)
    with Cons show ?thesis by (simp add: chunks_size_def)
  next
    case False
    with fl Cons show ?thesis by auto
  qed
qed


lemma handle_long_word_size:
  assumes "handle_long_word width cur_len cur_line chunks = (l, rest)" and "chunks \<noteq> []"
  shows "chunks_size rest \<le> chunks_size chunks"
proof -
  obtain c cs where c: "chunks = c # cs" using assms(2) by (cases chunks) auto
  with assms(1) show ?thesis
    by (auto simp: handle_long_word_def chunks_size_def Let_def)
qed

lemma handle_long_word_progress:
  assumes "handle_long_word width 0 cur_line chunks = (l, rest)" and "chunks \<noteq> []"
    and "width < length (hd chunks)"
  shows "chunks_size rest < chunks_size chunks"
proof -
  obtain c cs where c: "chunks = c # cs" using assms(2) by (cases chunks) auto
  with assms(1, 3) show ?thesis
    by (auto simp: handle_long_word_def chunks_size_def Let_def split: if_splits)
qed

lemma wrap_pass_decreases:
  assumes "chunks \<noteq> []" and "wrap_pass width started chunks = (line, rest)"
  shows "chunks_size rest < chunks_size chunks"
proof -
  define chunks1 where "chunks1 = (if is_blank (hd chunks) \<and> started then tl chunks else chunks)"
  obtain cur_line cur_len chunks2 where fl: "fill_line width [] 0 chunks1 = (cur_line, cur_len, chunks2)"
    by (cases "fill_line width [] 0 chunks1") auto
  define r where "r = (if chunks2 \<noteq> [] \<and> length (hd chunks2) > width
              then handle_long_word width cur_len cur_line chunks2
              else (cur_line, chunks2))"
  have rest: "rest = snd r"
    using assms(2) fl
    by (simp add: wrap_pass_def chunks1_def [symmetric] r_def [symmetric] Let_def split: prod.splits)
  have le1: "chunks_size chunks1 \<le> chunks_size chunks"
    using assms(1) by (cases chunks) (auto simp: chunks1_def chunks_size_def)
  have le2: "chunks_size chunks2 \<le> chunks_size chunks1"
    using fl by (rule fill_line_size)
  have le3: "chunks_size (snd r) \<le> chunks_size chunks2"
  proof (cases "chunks2 \<noteq> [] \<and> length (hd chunks2) > width")
    case True
    then have "r = handle_long_word width cur_len cur_line chunks2" by (simp add: r_def)
    with True handle_long_word_size [of width cur_len cur_line chunks2 "fst r" "snd r"]
    show ?thesis by simp
  next
    case False
    then show ?thesis by (auto simp: r_def)
  qed
  show ?thesis
  proof (cases "chunks1 = chunks")
    case False
    then have "chunks1 = tl chunks" by (simp add: chunks1_def split: if_splits)
    with assms(1) have "chunks_size chunks1 < chunks_size chunks"
      by (cases chunks) (auto simp: chunks_size_def)
    with le2 le3 rest show ?thesis by simp
  next
    case True
    with assms(1) have ne: "chunks1 \<noteq> []" by simp
    from fill_line_progress [OF fl ne]
    show ?thesis
    proof
      assume "chunks_size chunks2 < chunks_size chunks1"
      with le1 le3 rest show ?thesis by simp
    next
      assume stuck: "chunks2 = chunks1 \<and> cur_len = 0 \<and> width < length (hd chunks1)"
      with ne have "r = handle_long_word width 0 cur_line chunks1" by (simp add: r_def)
      then have "handle_long_word width 0 cur_line chunks1 = (fst r, snd r)" by simp
      from handle_long_word_progress [OF this ne] stuck
      have "chunks_size (snd r) < chunks_size chunks1" by simp
      with le1 rest show ?thesis by simp
    qed
  qed
qed

termination wrap_lines
  by (relation "measure (\<lambda>(width, lines, chunks). chunks_size chunks)")
     (auto dest: wrap_pass_decreases [OF _ sym])

declare wrap_lines.simps [simp del]

termination count_lines
  by (relation "measure (\<lambda>(width, started, chunks). chunks_size chunks)")
     (auto dest: wrap_pass_decreases [OF _ sym])

declare count_lines.simps [simp del]

lemma half_step_decreases:
  fixes font_size :: rat
  assumes "6 \<le> font_size"
  shows "nat \<lfloor>2 * (font_size - 1 / 2)\<rfloor> < nat \<lfloor>2 * font_size\<rfloor>"
proof -
  have "2 * (font_size - 1 / 2) = 2 * font_size - 1" by simp
  then have "\<lfloor>2 * (font_size - 1 / 2)\<rfloor> = \<lfloor>2 * font_size\<rfloor> - 1" by simp
  moreover have "12 \<le> \<lfloor>2 * font_size\<rfloor>" using assms by (simp add: le_floor_iff)
  ultimately show ?thesis by simp
qed

termination scale_loop
  by (relation "measure (\<lambda>(sw, sp, text, max_width, max_height, font_size, avg).
                   nat \<lfloor>2 * font_size\<rfloor>)")
     (auto simp: MIN_FONT_SIZE_def dest: half_step_decreases)

declare scale_loop.simps [simp del]

lemma unit_step_decreases:
  fixes font_size :: rat
  assumes "6 \<le> font_size"
  shows "nat \<lfloor>font_size - 1\<rfloor> < nat \<lfloor>font_size\<rfloor>"
proof -
  have "6 \<le> \<lfloor>font_size\<rfloor>" using assms by (simp add: le_floor_iff)
  then show ?thesis by simp
qed

termination fit_title_loop
  by (relation "measure (\<lambda>(sw, title, max_width, font_size). nat \<lfloor>font_size\<rfloor>)")
     (auto simp: MIN_FONT_SIZE_def dest: unit_step_decreases)

declare fit_title_loop.simps [simp del]

termination footer_loop
  by (relation "measure (\<lambda>(sw, source_text, page_text, font_size). nat \<lfloor>2 * font_size\<rfloor>)")
     (auto simp: MIN_FOOTER_FONT_SIZE_def dest: half_step_decreases)

declare footer_loop.simps [simp del]

termination remove_label
  by (relation "measure length") auto

section \<open>Properties\<close>

subsection \<open>The search of the Text Fitter\<close>

lemma scale_loop_step:
  "MIN_FONT_SIZE \<le> font_size \<Longrightarrow>
   scale_loop sw sp text max_width max_height font_size avg =
     (case measure_and_wrap sw sp text max_width font_size of
        Inl e \<Rightarrow> Inl e
      | Inr (avg_char_width, wrapped) \<Rightarrow>
          if needed_height font_size wrapped \<le> max_height
          then Inr (Returned font_size wrapped)
          else scale_loop sw sp text max_width max_height (font_size - 1 / 2)
                 (Some avg_char_width))"
  by (subst scale_loop.simps) simp

lemma scale_loop_stop:
  "font_size < MIN_FONT_SIZE \<Longrightarrow>
   scale_loop sw sp text max_width max_height font_size avg = Inr (Exhausted avg)"
  by (subst scale_loop.simps) simp

lemma scale_loop_unroll:
  "scale_loop sw sp text max_width max_height MAX_BODY_SIZE None =
   scale_search sw sp text max_width max_height body_sizes None"
  by (simp add: scale_loop_step scale_loop_stop MAX_BODY_SIZE_def MIN_FONT_SIZE_def body_sizes_def
      split: sum.splits prod.splits)

lemma scale_search_returned:
  assumes "scale_search sw sp text max_width max_height sizes avg = Inr (Returned s wrapped)"
  shows "\<exists>pre post a. sizes = pre @ s # post
           \<and> measure_and_wrap sw sp text max_width s = Inr (a, wrapped)
           \<and> needed_height s wrapped \<le> max_height
           \<and> (\<forall>s' \<in> set pre. \<exists>a' w'. measure_and_wrap sw sp text max_width s' = Inr (a', w')
                  \<and> max_height < needed_height s' w')"
  using assms
proof (induction sizes arbitrary: avg)
  case Nil
  then show ?case by simp
next
  case (Cons x sizes)
  from Cons.prems obtain a w where mw: "measure_and_wrap sw sp text max_width x = Inr (a, w)"
    by (auto split: sum.splits)
  show ?case
  proof (cases "needed_height x w \<le> max_height")
    case True
    with Cons.prems mw have "x = s" "w = wrapped" by auto
    with mw True have "x # sizes = [] @ s # sizes
        \<and> measure_and_wrap sw sp text max_width s = Inr (a, wrapped)
        \<and> needed_height s wrapped \<le> max_height
        \<and> (\<forall>s' \<in> set []. \<exists>a' w'. measure_and_wrap sw sp text max_width s' = Inr (a', w')
                  \<and> max_height < needed_height s' w')"
      by simp
    then show ?thesis by blast
  next
    case False
    with Cons.prems mw
    have "scale_search sw sp text max_width max_height sizes (Some a) = Inr (Returned s wrapped)"
      by simp
    from Cons.IH [OF this] obtain pre post b where
      p: "sizes = pre @ s # post"
         "measure_and_wrap sw sp text max_width s = Inr (b, wrapped)"
         "needed_height s wrapped \<le> max_height"
         "\<forall>s' \<in> set pre. \<exists>a' w'. measure_and_wrap sw sp text max_width s' = Inr (a', w')
                  \<and> max_height < needed_height s' w'"
      by blast
    from False mw p(4)
    have "\<forall>s' \<in> set (x # pre). \<exists>a' w'. measure_and_wrap sw sp text max_width s' = Inr (a', w')
                  \<and> max_height < needed_height s' w'"
      by auto
    moreover from p(1) have "x # sizes = (x # pre) @ s # post" by simp
    ultimately show ?thesis using p(2, 3) by blast
  qed
qed

lemma scale_search_exhausted:
  assumes "scale_search sw sp text max_width max_height sizes avg = Inr (Exhausted r)"
  shows "(\<forall>s' \<in> set sizes. \<exists>a' w'. measure_and_wrap sw sp text max_width s' = Inr (a', w')
                  \<and> max_height < needed_height s' w')
         \<and> (sizes \<noteq> [] \<longrightarrow>
              (\<exists>a w. r = Some a \<and> measure_and_wrap sw sp text max_width (last sizes) = Inr (a, w)))
         \<and> (sizes = [] \<longrightarrow> r = avg)"
  using assms
proof (induction sizes arbitrary: avg)
  case Nil
  then show ?case by simp
next
  case (Cons x sizes)
  from Cons.prems obtain a w where mw: "measure_and_wrap sw sp text max_width x = Inr (a, w)"
    by (auto split: sum.splits)
  with Cons.prems have nofit: "max_height < needed_height x w"
    and rest: "scale_search sw sp text max_width max_height sizes (Some a) = Inr (Exhausted r)"
    by (auto split: if_splits)
  note IH = Cons.IH [OF rest]
  show ?case
  proof (cases "sizes = []")
    case True
    with IH mw nofit show ?thesis by auto
  next
    case False
    with IH mw nofit show ?thesis by auto
  qed
qed

lemma scale_search_no_error:
  assumes "\<forall>s \<in> set sizes. \<exists>a w. measure_and_wrap sw sp text max_width s = Inr (a, w)"
  shows "\<exists>x. scale_search sw sp text max_width max_height sizes avg = Inr x"
  using assms
proof (induction sizes arbitrary: avg)
  case Nil
  then show ?case by simp
next
  case (Cons x sizes)
  then obtain a w where mw: "measure_and_wrap sw sp text max_width x = Inr (a, w)" by auto
  from Cons have "\<exists>y. scale_search sw sp text max_width max_height sizes (Some a) = Inr y" by simp
  with mw show ?case by auto
qed

lemma scale_loop_exhausted_no_fit:
  assumes "scale_loop sw sp text max_width max_height MAX_BODY_SIZE None = Inr (Exhausted r)"
  shows "\<forall>s \<in> set body_sizes. \<exists>a w. measure_and_wrap sw sp text max_width s = Inr (a, w)
              \<and> max_height < of_nat (length w) * (s * LINE_SPACING)"
proof -
  from assms have "scale_search sw sp text max_width max_height body_sizes None = Inr (Exhausted r)"
    by (simp add: scale_loop_unroll)
  from scale_search_exhausted [OF this] show ?thesis by (simp add: needed_height_def)
qed

lemma wrap_positive:
  "0 < width \<Longrightarrow>
   wrap sp text width = Inr (wrap_lines (nat width) [] (filter (\<lambda>c. c \<noteq> []) (sp (munge_whitespace text))))"
  by (simp add: wrap_def wrap_chunks_def)

lemma wrap_returns_positive: "wrap sp text width = Inr ls \<Longrightarrow> 0 < width"
  by (simp add: wrap_def wrap_chunks_def split: if_splits)

lemma py_int_ge_one: "1 \<le> x \<Longrightarrow> 1 \<le> py_int x"
  by (simp add: py_int_def le_floor_iff)


lemma measure_and_wrap_width:
  assumes "measure_and_wrap sw sp text max_width s = Inr (a, w)"
  shows "a = sw ''n'' BODY_FONT_NAME s \<and> a \<noteq> 0 \<and> 0 < py_int (max_width / a)
         \<and> wrap sp (take 2000 text) (py_int (max_width / a)) = Inr w"
  using assms
  by (auto simp: measure_and_wrap_def Let_def split: if_splits sum.splits
           dest: wrap_returns_positive)

lemma body_sizes_range: "s \<in> set body_sizes \<Longrightarrow> MIN_FONT_SIZE \<le> s \<and> s \<le> MAX_BODY_SIZE"
  by (auto simp: body_sizes_def MIN_FONT_SIZE_def MAX_BODY_SIZE_def)

lemma body_sizes_last: "last body_sizes = MIN_FONT_SIZE" "body_sizes \<noteq> []"
  by (simp_all add: body_sizes_def MIN_FONT_SIZE_def)

lemma body_sizes_descending: "sorted_wrt (\<lambda>a b. b < a) body_sizes"
  by (simp add: body_sizes_def)

lemma auto_scale_lines_exhausted:
  assumes "scale_loop sw sp text max_width max_height MAX_BODY_SIZE None = Inr (Exhausted r)"
  shows "\<exists>wrapped. wrap sp text (py_int (max_width / sw ''n'' BODY_FONT_NAME MIN_FONT_SIZE)) = Inr wrapped
           \<and> auto_scale_lines sw sp text max_width max_height =
               Inr (MIN_FONT_SIZE,
                    py_slice_to wrapped (py_int (max_height / (MIN_FONT_SIZE * LINE_SPACING))))"
proof -
  from assms have "scale_search sw sp text max_width max_height body_sizes None = Inr (Exhausted r)"
    by (simp add: scale_loop_unroll)
  from scale_search_exhausted [OF this] body_sizes_last
  obtain a w where r: "r = Some a"
    and m: "measure_and_wrap sw sp text max_width MIN_FONT_SIZE = Inr (a, w)"
    by auto
  from measure_and_wrap_width [OF m]
  have a: "a = sw ''n'' BODY_FONT_NAME MIN_FONT_SIZE" "a \<noteq> 0" "0 < py_int (max_width / a)"
    by blast+
  from a(3) have "wrap sp text (py_int (max_width / a)) =
      Inr (wrap_lines (nat (py_int (max_width / a))) [] (filter (\<lambda>c. c \<noteq> []) (sp (munge_whitespace text))))"
    by (rule wrap_positive)
  with assms r a show ?thesis
    by (simp add: auto_scale_lines_def)
qed







lemma scale_loop_returned_largest:
  assumes "scale_loop sw sp text max_width max_height MAX_BODY_SIZE None = Inr (Returned s wrapped)"
  shows "s \<in> set body_sizes
       \<and> (\<exists>a. measure_and_wrap sw sp text max_width s = Inr (a, wrapped))
       \<and> needed_height s wrapped \<le> max_height
       \<and> (\<forall>s' \<in> set body_sizes. s < s' \<longrightarrow>
             (\<exists>a' w'. measure_and_wrap sw sp text max_width s' = Inr (a', w')
                \<and> max_height < needed_height s' w'))"
proof -
  from assms
  have "scale_search sw sp text max_width max_height body_sizes None = Inr (Returned s wrapped)"
    by (simp add: scale_loop_unroll)
  from scale_search_returned [OF this] obtain pre post a where
    d: "body_sizes = pre @ s # post"
    and m: "measure_and_wrap sw sp text max_width s = Inr (a, wrapped)"
    and fit: "needed_height s wrapped \<le> max_height"
    and pre: "\<forall>s' \<in> set pre. \<exists>a' w'. measure_and_wrap sw sp text max_width s' = Inr (a', w')
                  \<and> max_height < needed_height s' w'"
    by blast
  from d have mem: "s \<in> set body_sizes" by (metis in_set_conv_decomp)
  have larger: "s' \<in> set pre" if "s' \<in> set body_sizes" and "s < s'" for s'
  proof -
    have "sorted_wrt (\<lambda>a b. b < a) (pre @ s # post)"
      using body_sizes_descending unfolding d .
    then have "\<forall>y \<in> set post. y < s"
      by (simp add: sorted_wrt_append)
    with that d show ?thesis by (metis Un_iff less_irrefl less_trans set_ConsD set_append)
  qed
  from mem m fit larger pre show ?thesis by blast
qed

lemma auto_scale_text_size:
  assumes "scale_loop sw sp text max_width max_height MAX_BODY_SIZE None = Inr x"
  shows "\<exists>j. auto_scale_text sw sp text max_width max_height =
           Inr (case x of Returned s l \<Rightarrow> s | Exhausted r \<Rightarrow> MIN_FONT_SIZE, j)"
proof (cases x)
  case (Returned s l)
  with assms show ?thesis by (simp add: auto_scale_text_def auto_scale_lines_def)
next
  case (Exhausted r)
  with assms auto_scale_lines_exhausted [of sw sp "text" max_width max_height r]
  show ?thesis by (auto simp: auto_scale_text_def)
qed





subsection \<open>Wrapping a text without white space\<close>











subsection \<open>Two widths, one text\<close>

lemma wrap_lines_length:
  "length (wrap_lines width lines chunks) = length lines + count_lines width (lines \<noteq> []) chunks"
proof (induction width lines chunks rule: wrap_lines.induct)
  case (1 width lines chunks)
  show ?case
  proof (cases "chunks = []")
    case True
    then show ?thesis
      by (simp add: wrap_lines.simps [of width lines "[]"] count_lines.simps [of width _ "[]"])
  next
    case False
    obtain line rest where p: "wrap_pass width (lines \<noteq> []) chunks = (line, rest)"
      by (cases "wrap_pass width (lines \<noteq> []) chunks") auto
    show ?thesis
    proof (cases line)
      case None
      from "1.IH"(1) [OF False p [symmetric, unfolded None] refl] None p False show ?thesis
        by (simp add: wrap_lines.simps [of width lines chunks] count_lines.simps [of width _ chunks])
    next
      case (Some l)
      from "1.IH"(2) [OF False p [symmetric, unfolded Some] refl] Some p False show ?thesis
        by (simp add: wrap_lines.simps [of width lines chunks] count_lines.simps [of width _ chunks])
    qed
  qed
qed

lemma fill_line_rest:
  "fill_line width cur_line cur_len chunks = (l, n, rest) \<Longrightarrow>
   rest = fill_rest width cur_len chunks
   \<and> (\<exists>k. l = cur_line @ take k chunks \<and> rest = drop k chunks
          \<and> (chunks \<noteq> [] \<and> cur_len + length (hd chunks) \<le> width \<longrightarrow> 0 < k))"
proof (induction chunks arbitrary: cur_line cur_len)
  case Nil
  then show ?case by auto
next
  case (Cons c chunks)
  show ?case
  proof (cases "cur_len + length c \<le> width")
    case True
    with Cons.prems have "fill_line width (cur_line @ [c]) (cur_len + length c) chunks = (l, n, rest)"
      by simp
    from Cons.IH [OF this] obtain k where
      "rest = fill_rest width (cur_len + length c) chunks"
      "l = (cur_line @ [c]) @ take k chunks" "rest = drop k chunks"
      by blast
    with True have "rest = fill_rest width cur_len (c # chunks)
        \<and> l = cur_line @ take (Suc k) (c # chunks) \<and> rest = drop (Suc k) (c # chunks) \<and> 0 < Suc k"
      by simp
    then show ?thesis by blast
  next
    case False
    with Cons.prems have "rest = fill_rest width cur_len (c # chunks)
        \<and> l = cur_line @ take 0 (c # chunks) \<and> rest = drop 0 (c # chunks)"
      by auto
    with False show ?thesis by force
  qed
qed

lemma fill_rest_suffix: "suffix (fill_rest width n chunks) chunks"
  by (induction chunks arbitrary: n) (auto intro: suffix_ConsI)

lemma fill_rest_more_room:
  "width \<le> width' \<Longrightarrow> n' \<le> n \<Longrightarrow>
   suffix (fill_rest width' n' chunks) (fill_rest width n chunks)"
proof (induction chunks arbitrary: n n')
  case Nil
  then show ?case by simp
next
  case (Cons c chunks)
  show ?case
  proof (cases "n + length c \<le> width")
    case True
    with Cons.prems have "n' + length c \<le> width'" by simp
    moreover from Cons.prems have "n' + length c \<le> n + length c" by simp
    ultimately show ?thesis using True Cons.IH [OF Cons.prems(1)] by simp
  next
    case False
    have "suffix (fill_rest width' n' (c # chunks)) (c # chunks)" by (rule fill_rest_suffix)
    with False show ?thesis by simp
  qed
qed

lemma fill_rest_later_start:
  assumes "suffix chunks' chunks" and "width \<le> width'"
  shows "suffix (fill_rest width' 0 chunks') (fill_rest width 0 chunks)"
proof -
  from assms(1) obtain p where "chunks = p @ chunks'" by (auto simp: suffix_def)
  then show ?thesis
  proof (induction p arbitrary: chunks)
    case Nil
    then show ?case using fill_rest_more_room [OF assms(2), of 0 0 chunks'] by simp
  next
    case (Cons x p)
    from Cons.IH [OF refl] have ih: "suffix (fill_rest width' 0 chunks') (fill_rest width 0 (p @ chunks'))" .
    show ?case
    proof (cases "length x \<le> width")
      case True
      have "suffix (fill_rest width 0 (p @ chunks')) (fill_rest width (length x) (p @ chunks'))"
        by (rule fill_rest_more_room) simp_all
      with ih True Cons.prems show ?thesis by (auto intro: suffix_order.trans)
    next
      case False
      have "suffix (fill_rest width 0 (p @ chunks')) (p @ chunks')" by (rule fill_rest_suffix)
      with ih have "suffix (fill_rest width' 0 chunks') (x # p @ chunks')"
        by (auto intro: suffix_order.trans suffix_ConsI)
      with False Cons.prems show ?thesis by simp
    qed
  qed
qed

lemma no_blank_pair_tl: "no_blank_pair (x # xs) \<Longrightarrow> no_blank_pair xs"
  by (cases xs) simp_all

lemma no_blank_pair_suffix: "suffix xs ys \<Longrightarrow> no_blank_pair ys \<Longrightarrow> no_blank_pair xs"
proof -
  assume "suffix xs ys" and n: "no_blank_pair ys"
  then obtain p where "ys = p @ xs" by (auto simp: suffix_def)
  with n show ?thesis by (induction p arbitrary: ys) (auto dest: no_blank_pair_tl)
qed

lemma strip_blank_suffix: "suffix (strip_blank chunks) chunks"
  by (simp add: strip_blank_def)

lemma strip_blank_starts:
  assumes "no_blank_pair chunks"
  shows "strip_blank chunks = [] \<or> \<not> is_blank (hd (strip_blank chunks))"
proof (cases chunks)
  case Nil
  then show ?thesis by (simp add: strip_blank_def)
next
  case (Cons x xs)
  with assms show ?thesis by (cases xs) (auto simp: strip_blank_def)
qed

lemma strip_blank_later_start:
  assumes "suffix chunks' chunks"
  shows "suffix (strip_blank chunks') (strip_blank chunks)"
proof (cases "chunks' = chunks")
  case True
  then show ?thesis by simp
next
  case False
  with assms obtain x p where "chunks = x # p @ chunks'"
    by (auto simp: suffix_def) (metis append_Nil list.exhaust append_Cons)
  then have a: "suffix chunks' (tl chunks)" by (simp add: suffix_def)
  have b: "suffix (tl chunks) (strip_blank chunks)" by (simp add: strip_blank_def)
  have c: "suffix (strip_blank chunks') chunks'" by (rule strip_blank_suffix)
  from c a b show ?thesis by (blast intro: suffix_order.trans)
qed

lemma fill_rest_shorter:
  assumes "chunks \<noteq> []" and "length (hd chunks) \<le> width"
  shows "length (fill_rest width 0 chunks) < length chunks"
proof -
  obtain c cs where c: "chunks = c # cs" using assms(1) by (cases chunks) auto
  have "suffix (fill_rest width (length c) cs) cs" by (rule fill_rest_suffix)
  then have "length (fill_rest width (length c) cs) \<le> length cs" by (rule suffix_length_le)
  with c assms(2) show ?thesis by simp
qed

lemma wrap_pass_regular:
  assumes ne: "chunks \<noteq> []" and short: "\<forall>c \<in> set chunks. length c \<le> width"
    and nbp: "no_blank_pair chunks" and st: "started \<or> \<not> is_blank (hd chunks)"
  shows "(strip_blank chunks = [] \<longrightarrow> wrap_pass width started chunks = (None, []))
       \<and> (strip_blank chunks \<noteq> [] \<longrightarrow>
            (\<exists>l. wrap_pass width started chunks = (Some l, fill_rest width 0 (strip_blank chunks))))"
proof -
  define u where "u = strip_blank chunks"
  have c1: "(if is_blank (hd chunks) \<and> started then tl chunks else chunks) = u"
    using ne st by (auto simp: u_def strip_blank_def)
  have su: "suffix u chunks" unfolding u_def by (rule strip_blank_suffix)
  have start: "u = [] \<or> \<not> is_blank (hd u)" unfolding u_def using nbp by (rule strip_blank_starts)
  obtain l n rest where fl: "fill_line width [] 0 u = (l, n, rest)"
    by (cases "fill_line width [] 0 u") auto
  from fill_line_rest [OF fl] obtain k where
    rest: "rest = fill_rest width 0 u" and l: "l = take k u" and d: "rest = drop k u"
    and k: "u \<noteq> [] \<and> length (hd u) \<le> width \<longrightarrow> 0 < k"
    by auto
  have "suffix rest u" unfolding d by (rule suffix_drop)
  with su have "set rest \<subseteq> set chunks" by (meson set_mono_suffix suffix_order.trans)
  with short have nolong: "(rest \<noteq> [] \<and> length (hd rest) > width) = False"
    by (cases rest) auto
  have p: "wrap_pass width started chunks =
      (if (if l \<noteq> [] \<and> is_blank (last l) then butlast l else l) \<noteq> []
       then Some (concat (if l \<noteq> [] \<and> is_blank (last l) then butlast l else l)) else None, rest)"
    by (simp add: wrap_pass_def c1 Let_def fl nolong)
  show ?thesis
  proof (cases "u = []")
    case True
    with l rest p show ?thesis by (simp add: u_def)
  next
    case False
    with start have nb: "\<not> is_blank (hd u)" by simp
    from False su short have "length (hd u) \<le> width"
      by (cases u) (auto dest: set_mono_suffix)
    with k False have kp: "0 < k" by simp
    with False l have lne: "l \<noteq> []" by (cases u) auto
    from kp l False have hdl: "hd l = hd u" by (cases u; cases k) auto
    have "(if l \<noteq> [] \<and> is_blank (last l) then butlast l else l) \<noteq> []"
    proof (cases "is_blank (last l)")
      case True
      with nb hdl have "last l \<noteq> hd l" by auto
      with lne have "butlast l \<noteq> []" by (cases l) (auto split: if_splits)
      with True lne show ?thesis by simp
    next
      case False
      with lne show ?thesis by simp
    qed
    with p rest False show ?thesis by (auto simp: u_def)
  qed
qed

lemma count_lines_regular:
  assumes "\<forall>c \<in> set chunks. length c \<le> width" and "no_blank_pair chunks"
    and "started \<or> chunks = [] \<or> \<not> is_blank (hd chunks)"
  shows "count_lines width started chunks =
           (if strip_blank chunks = [] then 0
            else Suc (count_lines width True (fill_rest width 0 (strip_blank chunks))))"
proof (cases "chunks = []")
  case True
  then show ?thesis by (simp add: count_lines.simps [of width started "[]"] strip_blank_def)
next
  case False
  with assms(3) have st: "started \<or> \<not> is_blank (hd chunks)" by simp
  note r = wrap_pass_regular [OF False assms(1, 2) st]
  show ?thesis
  proof (cases "strip_blank chunks = []")
    case True
    with r have "wrap_pass width started chunks = (None, [])" by simp
    with False True show ?thesis
      by (simp add: count_lines.simps [of width started chunks] count_lines.simps [of width started "[]"])
  next
    case nonempty: False
    with r obtain l where
      "wrap_pass width started chunks = (Some l, fill_rest width 0 (strip_blank chunks))"
      by blast
    with False nonempty show ?thesis
      by (simp add: count_lines.simps [of width started chunks])
  qed
qed

text \<open>
  The number of lines does not grow with the width, for chunks that all fit the smaller
  width, with no two blank chunks in a row, on lines that do not start with a blank chunk.
\<close>

lemma count_lines_mono:
  assumes "a \<le> b"
  shows "\<forall>c \<in> set chunks. length c \<le> a \<Longrightarrow> no_blank_pair chunks \<Longrightarrow> suffix chunks' chunks \<Longrightarrow>
         st \<or> chunks = [] \<or> \<not> is_blank (hd chunks) \<Longrightarrow>
         st' \<or> chunks' = [] \<or> \<not> is_blank (hd chunks') \<Longrightarrow>
         count_lines b st' chunks' \<le> count_lines a st chunks"
proof (induction "length chunks" arbitrary: chunks chunks' st st' rule: less_induct)
  case less
  let ?u = "strip_blank chunks" and ?u' = "strip_blank chunks'"
  from less.prems(3) have "set chunks' \<subseteq> set chunks" by (rule set_mono_suffix)
  with less.prems(1) assms have short': "\<forall>c \<in> set chunks'. length c \<le> b"
    by (meson le_trans subsetD)
  have nbp': "no_blank_pair chunks'"
    using less.prems(2, 3) by (auto intro: no_blank_pair_suffix)
  have ca: "count_lines a st chunks =
      (if ?u = [] then 0 else Suc (count_lines a True (fill_rest a 0 ?u)))"
    by (rule count_lines_regular) (use less.prems in auto)
  have cb: "count_lines b st' chunks' =
      (if ?u' = [] then 0 else Suc (count_lines b True (fill_rest b 0 ?u')))"
    by (rule count_lines_regular) (use short' nbp' less.prems in auto)
  have suf: "suffix ?u' ?u" using less.prems(3) by (rule strip_blank_later_start)
  show ?case
  proof (cases "?u' = []")
    case True
    with cb show ?thesis by simp
  next
    case False
    with suf have une: "?u \<noteq> []" by auto
    have usuf: "suffix ?u chunks" by (rule strip_blank_suffix)
    from une usuf less.prems(1) have "length (hd ?u) \<le> a"
      by (cases ?u) (auto dest: set_mono_suffix)
    with une have "length (fill_rest a 0 ?u) < length ?u" by (rule fill_rest_shorter)
    moreover from usuf have "length ?u \<le> length chunks" by (rule suffix_length_le)
    ultimately have shorter: "length (fill_rest a 0 ?u) < length chunks" by simp
    have rsuf: "suffix (fill_rest a 0 ?u) chunks"
      using fill_rest_suffix usuf by (blast intro: suffix_order.trans)
    have "count_lines b True (fill_rest b 0 ?u') \<le> count_lines a True (fill_rest a 0 ?u)"
    proof (rule less.hyps [OF shorter])
      show "\<forall>c \<in> set (fill_rest a 0 ?u). length c \<le> a"
        using rsuf less.prems(1) by (auto dest: set_mono_suffix)
      show "no_blank_pair (fill_rest a 0 ?u)"
        using rsuf less.prems(2) by (rule no_blank_pair_suffix)
      show "suffix (fill_rest b 0 ?u') (fill_rest a 0 ?u)"
        using suf assms by (rule fill_rest_later_start)
    qed simp_all
    with ca cb False une show ?thesis by simp
  qed
qed

lemma py_int_mono: "x \<le> y \<Longrightarrow> py_int x \<le> py_int y"
proof -
  assume xy: "x \<le> y"
  consider "0 \<le> x" | "x < 0" "0 \<le> y" | "y < 0" using xy by linarith
  then show ?thesis
  proof cases
    case 1
    with xy show ?thesis by (simp add: py_int_def floor_mono)
  next
    case 2
    then have "py_int x = \<lceil>x\<rceil>" "py_int y = \<lfloor>y\<rfloor>" by (simp_all add: py_int_def)
    moreover from 2 have "\<lceil>x\<rceil> \<le> 0" by (simp add: ceiling_le_iff)
    moreover from 2 have "0 \<le> \<lfloor>y\<rfloor>" by simp
    ultimately show ?thesis by linarith
  next
    case 3
    with xy show ?thesis by (simp add: py_int_def ceiling_mono)
  qed
qed

lemma wider_box_needs_less:
  assumes w: "max_width1 \<le> max_width2"
    and pos: "0 < sw ''n'' BODY_FONT_NAME s" and le: "sw ''n'' BODY_FONT_NAME s \<le> max_width1"
    and s: "0 \<le> s"
    and start: "filter (\<lambda>c. c \<noteq> []) (sp (munge_whitespace (take 2000 text))) = []
         \<or> \<not> is_blank (hd (filter (\<lambda>c. c \<noteq> []) (sp (munge_whitespace (take 2000 text)))))"
    and nbp: "no_blank_pair (filter (\<lambda>c. c \<noteq> []) (sp (munge_whitespace (take 2000 text))))"
    and short: "\<forall>c \<in> set (filter (\<lambda>c. c \<noteq> []) (sp (munge_whitespace (take 2000 text)))).
                  int (length c) \<le> py_int (max_width1 / sw ''n'' BODY_FONT_NAME s)"
  shows "\<exists>a1 l1 a2 l2. measure_and_wrap sw sp text max_width1 s = Inr (a1, l1)
           \<and> measure_and_wrap sw sp text max_width2 s = Inr (a2, l2)
           \<and> needed_height s l2 \<le> needed_height s l1"
proof -
  define chunks where "chunks = filter (\<lambda>c. c \<noteq> []) (sp (munge_whitespace (take 2000 text)))"
  define a where "a = sw ''n'' BODY_FONT_NAME s"
  define b1 where "b1 = py_int (max_width1 / a)"
  define b2 where "b2 = py_int (max_width2 / a)"
  from pos le have "1 \<le> max_width1 / a" by (simp add: a_def)
  then have b1p: "1 \<le> b1" unfolding b1_def by (rule py_int_ge_one)
  from w pos have "max_width1 / a \<le> max_width2 / a" by (simp add: a_def divide_right_mono)
  then have b12: "b1 \<le> b2" unfolding b1_def b2_def by (rule py_int_mono)
  have m1: "measure_and_wrap sw sp text max_width1 s = Inr (a, wrap_lines (nat b1) [] chunks)"
    using pos b1p
    by (simp add: measure_and_wrap_def Let_def wrap_positive a_def [symmetric] b1_def [symmetric]
          chunks_def)
  have m2: "measure_and_wrap sw sp text max_width2 s = Inr (a, wrap_lines (nat b2) [] chunks)"
    using pos b1p b12
    by (simp add: measure_and_wrap_def Let_def wrap_positive a_def [symmetric] b2_def [symmetric]
          chunks_def)
  have sh: "\<forall>c \<in> set chunks. length c \<le> nat b1"
    using short by (auto simp: chunks_def b1_def a_def)
  have "count_lines (nat b2) False chunks \<le> count_lines (nat b1) False chunks"
  proof (rule count_lines_mono)
    show "nat b1 \<le> nat b2" using b12 by simp
    show "\<forall>c \<in> set chunks. length c \<le> nat b1" by (rule sh)
    show "no_blank_pair chunks" using nbp by (simp add: chunks_def)
    show "suffix chunks chunks" by simp
    show "False \<or> chunks = [] \<or> \<not> is_blank (hd chunks)" using start by (simp add: chunks_def)
    then show "False \<or> chunks = [] \<or> \<not> is_blank (hd chunks)" .
  qed
  then have "length (wrap_lines (nat b2) [] chunks) \<le> length (wrap_lines (nat b1) [] chunks)"
    by (simp add: wrap_lines_length)
  then have "(of_nat (length (wrap_lines (nat b2) [] chunks)) :: rat)
               \<le> of_nat (length (wrap_lines (nat b1) [] chunks))"
    by simp
  moreover have "0 \<le> s * LINE_SPACING" using s by (simp add: LINE_SPACING_def)
  ultimately have "needed_height s (wrap_lines (nat b2) [] chunks)
               \<le> needed_height s (wrap_lines (nat b1) [] chunks)"
    unfolding needed_height_def Let_def by (rule mult_right_mono)
  with m1 m2 show ?thesis by blast
qed

text \<open>
  Claim C6, as amended. The claim says that for a fixed text and height the size chosen
  never grows when the box gets narrower. What holds: let \<open>max_width1 \<le> max_width2\<close>,
  let the width of an \<open>n\<close> be positive and at most \<open>max_width1\<close> at every size tried
  (so that both calls return), and let the chunks of the first 2000 characters be such
  that the first one is not blank, no two blank ones follow each other, and none is
  longer than the characters per line of \<open>max_width1\<close> at any size tried. Then both calls
  return, and the size for \<open>max_width1\<close> is at most the size for \<open>max_width2\<close>.
\<close>

theorem narrower_box_never_gives_larger_size:
  assumes w: "max_width1 \<le> max_width2"
    and metric: "\<forall>s \<in> set body_sizes.
                   0 < sw ''n'' BODY_FONT_NAME s \<and> sw ''n'' BODY_FONT_NAME s \<le> max_width1"
    and chunks: "chunks = filter (\<lambda>c. c \<noteq> []) (sp (munge_whitespace (take 2000 text)))"
    and start: "chunks = [] \<or> \<not> is_blank (hd chunks)"
    and nbp: "no_blank_pair chunks"
    and short: "\<forall>s \<in> set body_sizes. \<forall>c \<in> set chunks.
                  int (length c) \<le> py_int (max_width1 / sw ''n'' BODY_FONT_NAME s)"
  shows "\<exists>s1 j1 s2 j2.
           auto_scale_text sw sp text max_width1 max_height = Inr (s1, j1)
         \<and> auto_scale_text sw sp text max_width2 max_height = Inr (s2, j2)
         \<and> s1 \<le> s2"
proof -
  have per: "\<exists>a1 l1 a2 l2. measure_and_wrap sw sp text max_width1 s = Inr (a1, l1)
           \<and> measure_and_wrap sw sp text max_width2 s = Inr (a2, l2)
           \<and> needed_height s l2 \<le> needed_height s l1"
    if s: "s \<in> set body_sizes" for s
  proof (rule wider_box_needs_less [OF w])
    from s metric show "0 < sw ''n'' BODY_FONT_NAME s" "sw ''n'' BODY_FONT_NAME s \<le> max_width1"
      by simp_all
    from s show "0 \<le> s" using body_sizes_range [of s] by (simp add: MIN_FONT_SIZE_def)
    from start show "filter (\<lambda>c. c \<noteq> []) (sp (munge_whitespace (take 2000 text))) = []
         \<or> \<not> is_blank (hd (filter (\<lambda>c. c \<noteq> []) (sp (munge_whitespace (take 2000 text)))))"
      by (simp add: chunks)
    from nbp show "no_blank_pair (filter (\<lambda>c. c \<noteq> []) (sp (munge_whitespace (take 2000 text))))"
      by (simp add: chunks)
    from short s show "\<forall>c \<in> set (filter (\<lambda>c. c \<noteq> []) (sp (munge_whitespace (take 2000 text)))).
                  int (length c) \<le> py_int (max_width1 / sw ''n'' BODY_FONT_NAME s)"
      by (simp add: chunks)
  qed
  have "\<forall>s \<in> set body_sizes. \<exists>a l. measure_and_wrap sw sp text max_width1 s = Inr (a, l)"
    using per by blast
  from scale_search_no_error [OF this]
  obtain x1 where x1: "scale_loop sw sp text max_width1 max_height MAX_BODY_SIZE None = Inr x1"
    by (auto simp: scale_loop_unroll)
  have "\<forall>s \<in> set body_sizes. \<exists>a l. measure_and_wrap sw sp text max_width2 s = Inr (a, l)"
    using per by blast
  from scale_search_no_error [OF this]
  obtain x2 where x2: "scale_loop sw sp text max_width2 max_height MAX_BODY_SIZE None = Inr x2"
    by (auto simp: scale_loop_unroll)
  define size_of where
    "size_of x = (case x of Returned s l \<Rightarrow> s | Exhausted r \<Rightarrow> MIN_FONT_SIZE)" for x
  from auto_scale_text_size [OF x1] obtain j1 where
    r1: "auto_scale_text sw sp text max_width1 max_height = Inr (size_of x1, j1)"
    by (auto simp: size_of_def)
  from auto_scale_text_size [OF x2] obtain j2 where
    r2: "auto_scale_text sw sp text max_width2 max_height = Inr (size_of x2, j2)"
    by (auto simp: size_of_def)
  have nofit1: False
    if ret: "x1 = Returned s1 l1"
      and no2: "\<exists>a' w'. measure_and_wrap sw sp text max_width2 s1 = Inr (a', w')
                  \<and> max_height < needed_height s1 w'" for s1 l1
  proof -
    from scale_loop_returned_largest [OF x1 [unfolded ret]] obtain a where
      mem: "s1 \<in> set body_sizes"
      and m1: "measure_and_wrap sw sp text max_width1 s1 = Inr (a, l1)"
      and fit: "needed_height s1 l1 \<le> max_height"
      by blast
    from per [OF mem] m1 obtain a2 l2 where
      "measure_and_wrap sw sp text max_width2 s1 = Inr (a2, l2)"
      "needed_height s1 l2 \<le> needed_height s1 l1"
      by auto
    with no2 fit show False by auto
  qed
  have "size_of x1 \<le> size_of x2"
  proof (cases x2)
    case (Returned s2 l2)
    note big = scale_loop_returned_largest [OF x2 [unfolded Returned]]
    then have mem2: "s2 \<in> set body_sizes" by blast
    show ?thesis
    proof (cases x1)
      case r: (Returned s1 l1)
      from scale_loop_returned_largest [OF x1 [unfolded r]] have mem1: "s1 \<in> set body_sizes"
        by blast
      have "\<not> s2 < s1"
      proof
        assume "s2 < s1"
        with big mem1 have "\<exists>a' w'. measure_and_wrap sw sp text max_width2 s1 = Inr (a', w')
                  \<and> max_height < needed_height s1 w'"
          by blast
        with nofit1 [OF r] show False by blast
      qed
      with r Returned show ?thesis by (simp add: size_of_def)
    next
      case (Exhausted r)
      with Returned body_sizes_range [OF mem2] show ?thesis by (simp add: size_of_def)
    qed
  next
    case e2: (Exhausted r2)
    from scale_loop_exhausted_no_fit [OF x2 [unfolded e2]]
    have none: "\<forall>s \<in> set body_sizes. \<exists>a w. measure_and_wrap sw sp text max_width2 s = Inr (a, w)
              \<and> max_height < needed_height s w"
      by (simp add: needed_height_def)
    show ?thesis
    proof (cases x1)
      case r: (Returned s1 l1)
      from scale_loop_returned_largest [OF x1 [unfolded r]] have "s1 \<in> set body_sizes" by blast
      with none nofit1 [OF r] show ?thesis by blast
    next
      case (Exhausted r)
      with e2 show ?thesis by (simp add: size_of_def)
    qed
  qed
  with r1 r2 show ?thesis by blast
qed

text \<open>
  The claim as stated fails when a word is longer than a line. With eleven characters per
  line the text below fills four lines, because the long words are broken and fill each
  line; with twelve or thirteen characters per line every word is on a line of its own,
  six lines. So the box 62 points wide gets size 10 and the box 67 points wide size 8.5.
\<close>

theorem narrower_box_gives_larger_size:
  "(62 :: rat) \<le> 67
   \<and> auto_scale_text n_metric split_ws ''a bbbbbbbbbbbb a bbbbbbbbbbbb a bbbbbbbbbbbb'' 62 50 =
       Inr (10, ''a bbbbbbbbb<br/>bbb a bbbbb<br/>bbbbbbb a b<br/>bbbbbbbbbbb'')
   \<and> auto_scale_text n_metric split_ws ''a bbbbbbbbbbbb a bbbbbbbbbbbb a bbbbbbbbbbbb'' 67 50 =
       Inr (17 / 2, ''a bbbbbbbbbbbb<br/>a bbbbbbbbbbbb<br/>a bbbbbbbbbbbb'')
   \<and> (17 / 2 :: rat) < 10"
  by code_simp

text \<open>
  It also fails for a text that starts with white space, without any long word: five
  characters per line leave the leading blanks alone on a line that is dropped, six keep
  them in front of the first word.
\<close>

lemma leading_space_gives_larger_size:
  "(28 :: rat) \<le> 34
   \<and> auto_scale_text n_metric split_ws ''     x yyy'' 28 12 = Inr (10, ''x yyy'')
   \<and> auto_scale_text n_metric split_ws ''     x yyy'' 34 12 = Inr (6, ''     x yyy'')"
  by code_simp

theorem narrower_box_never_gives_larger_size_witness:
  "\<exists>s1 j1 s2 j2.
      auto_scale_text n_metric split_ws ''ab cd'' 25 11 = Inr (s1, j1)
    \<and> auto_scale_text n_metric split_ws ''ab cd'' 40 11 = Inr (s2, j2)
    \<and> s1 \<le> s2"
proof -
  have c: "[''ab'', '' '', ''cd''] =
      filter (\<lambda>c. c \<noteq> []) (split_ws (munge_whitespace (take 2000 ''ab cd'')))"
    by code_simp
  have h1: "(25 :: rat) \<le> 40" by simp
  have h2: "\<forall>s \<in> set body_sizes.
      0 < n_metric ''n'' BODY_FONT_NAME s \<and> n_metric ''n'' BODY_FONT_NAME s \<le> 25"
    by (simp add: body_sizes_def n_metric_def)
  have h3: "[''ab'', '' '', ''cd''] = [] \<or> \<not> is_blank (hd [''ab'', '' '', ''cd''])"
    by code_simp
  have h4: "no_blank_pair [''ab'', '' '', ''cd'']" by code_simp
  have h5: "\<forall>s \<in> set body_sizes. \<forall>c \<in> set [''ab'', '' '', ''cd''].
      int (length c) \<le> py_int (25 / n_metric ''n'' BODY_FONT_NAME s)"
    by code_simp
  show ?thesis
    by (rule narrower_box_never_gives_larger_size
          [where sw = n_metric and sp = split_ws and chunks = "[''ab'', '' '', ''cd'']",
           OF h1 h2 c h3 h4 h5])
qed

subsection \<open>Title and footer\<close>

lemma fit_title_loop_step:
  "MIN_FONT_SIZE \<le> font_size \<Longrightarrow>
   fit_title_loop sw title max_width font_size =
     (if sw title TITLE_FONT_NAME font_size \<le> max_width then font_size
      else fit_title_loop sw title max_width (font_size - 1))"
  by (subst fit_title_loop.simps) simp

lemma fit_title_loop_stop:
  "font_size < MIN_FONT_SIZE \<Longrightarrow> fit_title_loop sw title max_width font_size = MIN_FONT_SIZE"
  by (subst fit_title_loop.simps) simp

lemma fit_title_font_unroll:
  "fit_title_font sw title max_width =
     (case find (\<lambda>s. sw title TITLE_FONT_NAME s \<le> max_width) title_sizes of
        Some s \<Rightarrow> s | None \<Rightarrow> MIN_FONT_SIZE)"
  by (simp add: fit_title_font_def fit_title_loop_step fit_title_loop_stop MAX_TITLE_SIZE_def
      MIN_FONT_SIZE_def title_sizes_def)

lemma find_descending_largest:
  fixes xs :: "rat list"
  assumes "sorted_wrt (\<lambda>a b. b < a) xs" and "find P xs = Some x"
  shows "x \<in> set xs \<and> P x \<and> (\<forall>y \<in> set xs. x < y \<longrightarrow> \<not> P y)"
  using assms
proof (induction xs)
  case Nil
  then show ?case by simp
next
  case (Cons a xs)
  show ?case
  proof (cases "P a")
    case True
    with Cons.prems show ?thesis by auto
  next
    case False
    with Cons.prems have "find P xs = Some x" "sorted_wrt (\<lambda>a b. b < a) xs" by simp_all
    with Cons.IH have "x \<in> set xs \<and> P x \<and> (\<forall>y \<in> set xs. x < y \<longrightarrow> \<not> P y)" by simp
    with False show ?thesis by auto
  qed
qed

text \<open>
  Claim C7. When the title fits \<open>max_width\<close> at some size of 12, 11, ..., 6,
  \<open>fit_title_font\<close> returns the largest such size; when it fits at none, it returns
  \<open>MIN_FONT_SIZE\<close>. The composed card holds the title as it is, between \<open><b>\<close> and
  \<open></b>\<close>, at the size that \<open>fit_title_font\<close> returns for \<open>CONTENT_WIDTH\<close>.
\<close>

theorem fit_title_font_largest_fit:
  "(let chosen = fit_title_font sw title max_width in
      ((\<exists>s \<in> set title_sizes. sw title TITLE_FONT_NAME s \<le> max_width) \<longrightarrow>
          chosen \<in> set title_sizes
        \<and> sw title TITLE_FONT_NAME chosen \<le> max_width
        \<and> (\<forall>s \<in> set title_sizes. chosen < s \<longrightarrow> max_width < sw title TITLE_FONT_NAME s))
    \<and> ((\<forall>s \<in> set title_sizes. max_width < sw title TITLE_FONT_NAME s) \<longrightarrow>
          chosen = MIN_FONT_SIZE))
   \<and> (\<forall>c. create_card_content sw sp title quote analysis source page_number = Inr c \<longrightarrow>
          title_text c = ''<b>'' @ title @ ''</b>''
        \<and> title_font_size c = fit_title_font sw title CONTENT_WIDTH)"
proof -
  let ?P = "\<lambda>s. sw title TITLE_FONT_NAME s \<le> max_width"
  have desc: "sorted_wrt (\<lambda>a b. b < a) title_sizes" by (simp add: title_sizes_def)
  have some: "fit_title_font sw title max_width \<in> set title_sizes
        \<and> ?P (fit_title_font sw title max_width)
        \<and> (\<forall>s \<in> set title_sizes. fit_title_font sw title max_width < s \<longrightarrow> \<not> ?P s)"
    if "\<exists>s \<in> set title_sizes. ?P s"
  proof -
    from that obtain x where x: "find ?P title_sizes = Some x"
      by (cases "find ?P title_sizes") (auto simp: find_None_iff)
    from find_descending_largest [OF desc x] x show ?thesis
      by (simp add: fit_title_font_unroll)
  qed
  have none: "fit_title_font sw title max_width = MIN_FONT_SIZE"
    if "\<forall>s \<in> set title_sizes. max_width < sw title TITLE_FONT_NAME s"
  proof -
    from that have "find ?P title_sizes = None" by (auto simp: find_None_iff)
    then show ?thesis by (simp add: fit_title_font_unroll)
  qed
  have card: "title_text c = ''<b>'' @ title @ ''</b>''
        \<and> title_font_size c = fit_title_font sw title CONTENT_WIDTH"
    if "create_card_content sw sp title quote analysis source page_number = Inr c" for c
    using that by (auto simp: create_card_content_def Let_def split: sum.splits prod.splits)
  from some none card show ?thesis by (auto simp: Let_def not_le)
qed

theorem fit_title_font_largest_fit_witness:
  "fit_title_font n_metric ''nnnnnnnnnn'' 50 \<in> set title_sizes
   \<and> n_metric ''nnnnnnnnnn'' TITLE_FONT_NAME (fit_title_font n_metric ''nnnnnnnnnn'' 50) \<le> 50
   \<and> fit_title_font n_metric ''nnnnnnnnnn'' 50 = 8"
proof -
  have h: "\<exists>s \<in> set title_sizes. n_metric ''nnnnnnnnnn'' TITLE_FONT_NAME s \<le> 50"
    by (simp add: title_sizes_def n_metric_def)
  have v: "fit_title_font n_metric ''nnnnnnnnnn'' 50 = 8" by code_simp
  from fit_title_font_largest_fit [of n_metric "''nnnnnnnnnn''" 50] h v show ?thesis
    by (simp add: Let_def)
qed

lemma footer_loop_step:
  "MIN_FOOTER_FONT_SIZE \<le> font_size \<Longrightarrow>
   footer_loop sw source_text page_text font_size =
     (if footer_fits sw source_text page_text font_size then font_size
      else footer_loop sw source_text page_text (font_size - 1 / 2))"
  by (subst footer_loop.simps) (simp add: footer_fits_def)

lemma footer_loop_stop:
  "font_size < MIN_FOOTER_FONT_SIZE \<Longrightarrow>
   footer_loop sw source_text page_text font_size = MIN_FOOTER_FONT_SIZE"
  by (subst footer_loop.simps) simp

lemma calculate_footer_font_unroll:
  "calculate_footer_font sw source_text page_text =
     (case find (footer_fits sw source_text page_text) footer_sizes of
        Some s \<Rightarrow> s | None \<Rightarrow> MIN_FOOTER_FONT_SIZE)"
  by (simp add: calculate_footer_font_def footer_loop_step footer_loop_stop
      MAX_FOOTER_FONT_SIZE_def MIN_FOOTER_FONT_SIZE_def footer_sizes_def)

text \<open>
  Claim C8. When at some size of 8, 7.5, 7, 6.5, 6 the source string is at most
  \<open>CONTENT_WIDTH - PAGE_COL_WIDTH - 6\<close> wide and the page string at most
  \<open>PAGE_COL_WIDTH\<close>, \<open>calculate_footer_font\<close> returns the largest such size; when both
  hold at no size, it returns \<open>MIN_FOOTER_FONT_SIZE\<close>; when both hold at
  \<open>MAX_FOOTER_FONT_SIZE\<close>, it returns \<open>MAX_FOOTER_FONT_SIZE\<close>.
\<close>

theorem calculate_footer_font_largest_joint_fit:
  "(let chosen = calculate_footer_font sw source_text page_text in
      ((\<exists>s \<in> set footer_sizes. footer_fits sw source_text page_text s) \<longrightarrow>
          chosen \<in> set footer_sizes
        \<and> sw source_text BODY_FONT_NAME chosen \<le> CONTENT_WIDTH - PAGE_COL_WIDTH - 6
        \<and> sw page_text BODY_FONT_NAME chosen \<le> PAGE_COL_WIDTH
        \<and> (\<forall>s \<in> set footer_sizes. chosen < s \<longrightarrow> \<not> footer_fits sw source_text page_text s))
    \<and> ((\<forall>s \<in> set footer_sizes. \<not> footer_fits sw source_text page_text s) \<longrightarrow>
          chosen = MIN_FOOTER_FONT_SIZE)
    \<and> (footer_fits sw source_text page_text MAX_FOOTER_FONT_SIZE \<longrightarrow>
          chosen = MAX_FOOTER_FONT_SIZE))"
proof -
  let ?P = "footer_fits sw source_text page_text"
  let ?chosen = "calculate_footer_font sw source_text page_text"
  have desc: "sorted_wrt (\<lambda>a b. b < a) footer_sizes" by (simp add: footer_sizes_def)
  have some: "?chosen \<in> set footer_sizes \<and> ?P ?chosen
        \<and> (\<forall>s \<in> set footer_sizes. ?chosen < s \<longrightarrow> \<not> ?P s)"
    if "\<exists>s \<in> set footer_sizes. ?P s"
  proof -
    from that obtain x where x: "find ?P footer_sizes = Some x"
      by (cases "find ?P footer_sizes") (auto simp: find_None_iff)
    from find_descending_largest [OF desc x] x show ?thesis
      by (simp add: calculate_footer_font_unroll)
  qed
  have none: "?chosen = MIN_FOOTER_FONT_SIZE" if "\<forall>s \<in> set footer_sizes. \<not> ?P s"
  proof -
    from that have "find ?P footer_sizes = None" by (auto simp: find_None_iff)
    then show ?thesis by (simp add: calculate_footer_font_unroll)
  qed
  have top: "?chosen = MAX_FOOTER_FONT_SIZE" if "?P MAX_FOOTER_FONT_SIZE"
    using that
    by (simp add: calculate_footer_font_unroll footer_sizes_def MAX_FOOTER_FONT_SIZE_def)
  have fits: "sw source_text BODY_FONT_NAME ?chosen \<le> CONTENT_WIDTH - PAGE_COL_WIDTH - 6
        \<and> sw page_text BODY_FONT_NAME ?chosen \<le> PAGE_COL_WIDTH"
    if "\<exists>s \<in> set footer_sizes. ?P s"
    using some [OF that] by (simp add: footer_fits_def)
  show ?thesis unfolding Let_def using some fits none top by blast
qed

theorem calculate_footer_font_largest_joint_fit_witness:
  "footer_fits n_metric ''Source: Walden'' ''Page: 12'' MAX_FOOTER_FONT_SIZE
   \<and> calculate_footer_font n_metric ''Source: Walden'' ''Page: 12'' = MAX_FOOTER_FONT_SIZE"
proof -
  have h: "footer_fits n_metric ''Source: Walden'' ''Page: 12'' MAX_FOOTER_FONT_SIZE"
    by (simp add: footer_fits_def n_metric_def MAX_FOOTER_FONT_SIZE_def CONTENT_WIDTH_def
        CARD_WIDTH_def CARD_MARGIN_def PAGE_COL_WIDTH_def inch_def)
  from calculate_footer_font_largest_joint_fit [of n_metric "''Source: Walden''" "''Page: 12''"] h
  show ?thesis by (simp add: Let_def)
qed

subsection \<open>The composed card\<close>

lemma create_card_content_returns:
  assumes "create_card_content sw sp card_title quote analysis source page_number = Inr c"
  shows "\<exists>quote_font quote_content analysis_font analysis_content.
           auto_scale_text sw sp quote CONTENT_WIDTH
             ((CONTENT_HEIGHT - (fit_title_font sw card_title CONTENT_WIDTH * LINE_SPACING + 6)
                 - 12 - FOOTER_HEIGHT) / 2) = Inr (quote_font, quote_content)
         \<and> auto_scale_text sw sp analysis CONTENT_WIDTH
             ((CONTENT_HEIGHT - (fit_title_font sw card_title CONTENT_WIDTH * LINE_SPACING + 6)
                 - 12 - FOOTER_HEIGHT) / 2) = Inr (analysis_font, analysis_content)
         \<and> c = \<lparr> title_text = ''<b>'' @ card_title @ ''</b>'',
                 title_font_size = fit_title_font sw card_title CONTENT_WIDTH,
                 title_row_height = fit_title_font sw card_title CONTENT_WIDTH * LINE_SPACING + 6 - 2,
                 quote_text = ''<b>Quote:</b> '' @ quote_content,
                 analysis_text = ''<b>Analysis:</b> '' @ analysis_content,
                 body_font_size = min quote_font analysis_font,
                 para_row_height = CONTENT_HEIGHT
                    - (fit_title_font sw card_title CONTENT_WIDTH * LINE_SPACING + 6) - 12 - FOOTER_HEIGHT,
                 footer_source_text = ''<b>Source:</b> '' @ source,
                 footer_page_text = ''<b>Page:</b> '' @ page_number,
                 footer_font_size = calculate_footer_font sw (''Source: '' @ source) (''Page: '' @ page_number),
                 col_widths = CARD_WIDTH,
                 row_heights = [fit_title_font sw card_title CONTENT_WIDTH * LINE_SPACING + 6, 12,
                    CONTENT_HEIGHT - (fit_title_font sw card_title CONTENT_WIDTH * LINE_SPACING + 6)
                      - 12 - FOOTER_HEIGHT,
                    FOOTER_HEIGHT] \<rparr>"
  using assms unfolding create_card_content_def Let_def
  by (simp split: sum.splits prod.splits)

text \<open>
  Claim C10. The four row heights of a composed card are the title height, the spacer of
  12 points, the paragraph height and \<open>FOOTER_HEIGHT\<close>; their sum is \<open>CONTENT_HEIGHT\<close>,
  192 points, whatever size the title was fitted to.
\<close>

theorem card_rows_fill_content_height:
  assumes "create_card_content sw sp card_title quote analysis source page_number = Inr c"
  shows "row_heights c =
           [title_font_size c * LINE_SPACING + 6, 12, para_row_height c, FOOTER_HEIGHT]
         \<and> sum_list (row_heights c) = CONTENT_HEIGHT
         \<and> CONTENT_HEIGHT = 192"
proof -
  from create_card_content_returns [OF assms] obtain t p where
    r: "row_heights c = [t * LINE_SPACING + 6, 12, p, FOOTER_HEIGHT]"
    and t: "title_font_size c = t" and p: "para_row_height c = p"
    and pv: "p = CONTENT_HEIGHT - (t * LINE_SPACING + 6) - 12 - FOOTER_HEIGHT"
    by auto
  have "sum_list (row_heights c) = CONTENT_HEIGHT" by (simp add: r pv)
  moreover have "CONTENT_HEIGHT = 192"
    by (simp add: CONTENT_HEIGHT_def CARD_HEIGHT_def CARD_MARGIN_def inch_def)
  ultimately show ?thesis using r t p by simp
qed

lemma sample_card_composed:
  "create_card_content n_metric split_ws ''Test Card'' ''Short quote.'' ''Short analysis.''
     ''Walden'' ''12'' = Inr sample_card"
  by code_simp

theorem card_rows_fill_content_height_witness:
  "sum_list (row_heights sample_card) = CONTENT_HEIGHT
   \<and> row_heights sample_card = [102 / 5, 12, 618 / 5, 36]"
proof -
  from card_rows_fill_content_height [OF sample_card_composed] show ?thesis
    by (simp add: sample_card_def)
qed

subsection \<open>The sheet\<close>

lemma process_files_eq:
  "process_files an sw sp md_dir i md_files (elements, printed) =
     (elements @ concat (map (\<lambda>(j, f). layout_units an sw sp md_dir j f) (enumerate i md_files)),
      printed @ concat (map (diagnostics an sw sp md_dir) md_files))"
proof (induction md_files arbitrary: i elements printed)
  case Nil
  then show ?case by simp
next
  case (Cons f md_files)
  show ?case
  proof (cases "compose_file an sw sp md_dir f")
    case (Inl e)
    then show ?thesis by (simp add: Cons.IH layout_units_def diagnostics_def)
  next
    case (Inr c)
    then show ?thesis by (simp add: Cons.IH layout_units_def diagnostics_def)
  qed
qed

lemma make_avery5388_pdf_eq:
  assumes "listdir md_dir = Inr names"
  shows "make_avery5388_pdf listdir an sw sp md_dir =
           Inr (drop_trailing_break
                  (all_units an sw sp md_dir (sorted_strings (filter (\<lambda>f. endswith f ''.md'') names))),
                concat (map (diagnostics an sw sp md_dir)
                  (sorted_strings (filter (\<lambda>f. endswith f ''.md'') names))))"
  using assms
  by (simp add: make_avery5388_pdf_def process_files_eq all_units_def drop_trailing_break_def Let_def)




lemma cards_of_append: "cards_of (xs @ ys) = cards_of xs @ cards_of ys"
  by (induction xs rule: cards_of.induct) simp_all


lemma cards_of_butlast_break:
  assumes "xs \<noteq> []" and "last xs = PageBreak"
  shows "cards_of (butlast xs) = cards_of xs"
proof -
  from assms have "xs = butlast xs @ [PageBreak]" by (metis append_butlast_last_id)
  then have "cards_of xs = cards_of (butlast xs @ [PageBreak])" by simp
  then show ?thesis by (simp add: cards_of_append)
qed









lemma sample_analysis_parsed:
  assumes "an filename = Inr sample_analysis"
  shows "parse_markdown an filename =
           Inr (''Test Card'', ''Short quote.'', ''Short analysis.'', ''Walden'', ''12'')"
proof -
  have "match_page_header ''Page 12 - Test Card'' = Some (''12'', ''Test Card'')" by code_simp
  moreover have "search_source ''From [[Walden]].'' = Some ''Walden''" by code_simp
  moreover have "find_analysis [''From [[Walden]].'', ''**Analysis:** Short analysis.''] =
      ''Short analysis.''" by code_simp
  ultimately show ?thesis using assms
    by (simp add: parse_markdown_def sample_analysis_def)
qed

lemma sample_file_composed:
  assumes "an (path_join md_dir f) = Inr sample_analysis"
  shows "compose_file an n_metric split_ws md_dir f = Inr sample_card"
  by (simp add: compose_file_def sample_card_composed
        sample_analysis_parsed [where an = an and filename = "path_join md_dir f", OF assms])

lemma sample_md_files:
  "sorted_strings (filter (\<lambda>f. endswith f ''.md'') [''c.md'', ''a.md'', ''notes.txt'', ''b.md'', ''d.md''])
     = [''a.md'', ''b.md'', ''c.md'', ''d.md'']"
  by code_simp



lemma cards_of_units:
  "map Inr (cards_of (concat (map (\<lambda>(i, f). layout_units an sw sp md_dir i f) (enumerate i md_files))))
     = filter (\<lambda>r. \<not> isl r) (map (compose_file an sw sp md_dir) md_files)"
proof (induction md_files arbitrary: i)
  case Nil
  then show ?case by simp
next
  case (Cons f md_files)
  show ?case
  proof (cases "compose_file an sw sp md_dir f")
    case (Inl e)
    with Cons.IH [of "Suc i"] show ?thesis by (simp add: layout_units_def)
  next
    case (Inr c)
    with Cons.IH [of "Suc i"] show ?thesis by (simp add: layout_units_def cards_of_append)
  qed
qed

lemma cards_of_drop_trailing_break: "cards_of (drop_trailing_break xs) = cards_of xs"
  by (simp add: drop_trailing_break_def cards_of_butlast_break)

text \<open>
  Claim C9. Whatever the parser and the composer raise, \<open>make_avery5388_pdf\<close> reaches
  the builder. The elements are the units of the files in order, and the lines printed
  are the diagnostics of the files in order: a file whose parse or composition raises
  adds no element and one line \<open>Skipping <file>: <message>\<close>, the cards are those of
  the other files, earlier and later ones alike. A file without header, or whose first
  header does not match \<open>Page <digits> - <title>\<close>, raises \<open>ValueError\<close>.
\<close>

theorem skipped_record_does_not_stop_the_run:
  assumes "listdir md_dir = Inr names"
  shows "\<exists>elements printed md_files.
           make_avery5388_pdf listdir an sw sp md_dir = Inr (elements, printed)
         \<and> md_files = sorted_strings (filter (\<lambda>f. endswith f ''.md'') names)
         \<and> elements = drop_trailing_break (all_units an sw sp md_dir md_files)
         \<and> printed = concat (map (diagnostics an sw sp md_dir) md_files)
         \<and> map Inr (cards_of elements) =
             filter (\<lambda>r. \<not> isl r) (map (compose_file an sw sp md_dir) md_files)
         \<and> (\<forall>i f e. compose_file an sw sp md_dir f = Inl e \<longrightarrow>
               layout_units an sw sp md_dir i f = []
             \<and> diagnostics an sw sp md_dir f = [''Skipping '' @ f @ '': '' @ str_of_error e])
         \<and> (\<forall>f a. an (path_join md_dir f) = Inr a
               \<and> (headers a = []
                  \<or> match_page_header (case hd (headers a) of None \<Rightarrow> [] | Some t \<Rightarrow> t) = None) \<longrightarrow>
               (\<exists>m. compose_file an sw sp md_dir f = Inl (ValueError m)))"
proof -
  define md_files where "md_files = sorted_strings (filter (\<lambda>f. endswith f ''.md'') names)"
  have run: "make_avery5388_pdf listdir an sw sp md_dir =
          Inr (drop_trailing_break (all_units an sw sp md_dir md_files),
               concat (map (diagnostics an sw sp md_dir) md_files))"
    using make_avery5388_pdf_eq [where listdir = listdir and names = names, OF assms, of an sw sp]
    by (simp add: md_files_def)
  have cards: "map Inr (cards_of (drop_trailing_break (all_units an sw sp md_dir md_files))) =
             filter (\<lambda>r. \<not> isl r) (map (compose_file an sw sp md_dir) md_files)"
    by (simp add: cards_of_drop_trailing_break all_units_def cards_of_units)
  have skip: "layout_units an sw sp md_dir i f = []
             \<and> diagnostics an sw sp md_dir f = [''Skipping '' @ f @ '': '' @ str_of_error e]"
    if "compose_file an sw sp md_dir f = Inl e" for i f e
    using that by (simp add: layout_units_def diagnostics_def)
  have heading: "\<exists>m. compose_file an sw sp md_dir f = Inl (ValueError m)"
    if "an (path_join md_dir f) = Inr a
        \<and> (headers a = []
           \<or> match_page_header (case hd (headers a) of None \<Rightarrow> [] | Some t \<Rightarrow> t) = None)" for f a
    using that by (auto simp: compose_file_def parse_markdown_def Let_def)
  from run cards skip heading md_files_def show ?thesis by blast
qed

theorem skipped_record_does_not_stop_the_run_witness:
  "make_avery5388_pdf sample_listdir sample_analyzer n_metric split_ws ''cards'' =
     Inr ([Card sample_card, Card sample_card, PageBreak, Card sample_card],
          [''Skipping b.md: No headers found in cards/b.md''])"
proof -
  have h: "sample_listdir ''cards'' = Inr [''c.md'', ''a.md'', ''notes.txt'', ''b.md'', ''d.md'']"
    by (simp add: sample_listdir_def)
  have good: "compose_file sample_analyzer n_metric split_ws ''cards'' f = Inr sample_card"
    if "f \<in> {''a.md'', ''c.md'', ''d.md''}" for f
  proof -
    from that have "sample_analyzer (path_join ''cards'' f) = Inr sample_analysis"
      by (auto simp: sample_analyzer_def path_join_def startswith_def endswith_def)
    then show ?thesis by (rule sample_file_composed [where an = sample_analyzer])
  qed
  have bad: "compose_file sample_analyzer n_metric split_ws ''cards'' ''b.md'' =
      Inl (ValueError ''No headers found in cards/b.md'')"
    by (simp add: compose_file_def parse_markdown_def sample_analyzer_def path_join_def
        startswith_def endswith_def)
  from skipped_record_does_not_stop_the_run
         [where listdir = sample_listdir and md_dir = "''cards''" and an = sample_analyzer
            and sw = n_metric and sp = split_ws, OF h]
  obtain elements printed md_files where
    r: "make_avery5388_pdf sample_listdir sample_analyzer n_metric split_ws ''cards'' =
          Inr (elements, printed)"
    and m: "md_files = sorted_strings (filter (\<lambda>f. endswith f ''.md'')
              [''c.md'', ''a.md'', ''notes.txt'', ''b.md'', ''d.md''])"
    and e: "elements = drop_trailing_break (all_units sample_analyzer n_metric split_ws ''cards'' md_files)"
    and p: "printed = concat (map (diagnostics sample_analyzer n_metric split_ws ''cards'') md_files)"
    by blast
  have files: "md_files = [''a.md'', ''b.md'', ''c.md'', ''d.md'']"
    unfolding m by (rule sample_md_files)
  have "printed = [''Skipping b.md: No headers found in cards/b.md'']"
    unfolding p files by (simp add: diagnostics_def good bad)
  moreover have "elements = [Card sample_card, Card sample_card, PageBreak, Card sample_card]"
    unfolding e files
    by (simp add: all_units_def layout_units_def good bad drop_trailing_break_def)
  ultimately show ?thesis using r by simp
qed

end
